theory Spec2Isabelle
  imports Main "HOL-Library.Word" "HOL-Library.List_Lexorder" "HOL-Library.Multiset"
begin

section \<open>Bytes and the library routines the package calls\<close>

text \<open>
  Keys and prefixes are Go byte slices. A byte is an unsigned 8-bit word, so \<open><\<close> on bytes
  is the unsigned comparison, and \<open><\<close> on byte lists (from \<open>List_Lexorder\<close>) is the
  unsigned lexicographic order of the package.
\<close>

type_synonym byte = "8 word"

text \<open>
  \<open>sort.Search(n, f)\<close> of the Go standard library: binary search for the smallest index
  in \<open>[0, n)\<close> at which \<open>f\<close> holds, \<open>n\<close> when there is none. The loop is
  \<^verbatim>\<open>i, j := 0, n; for i < j { h := int(uint(i+j) >> 1); if !f(h) { i = h + 1 } else { j = h } }; return i\<close>.
\<close>

function search_loop :: "nat \<Rightarrow> nat \<Rightarrow> (nat \<Rightarrow> bool) \<Rightarrow> nat" where
  "search_loop i j f =
     (if i < j then
        (let h = (i + j) div 2 in
         if \<not> f h then search_loop (h + 1) j f else search_loop i h f)
      else i)"
  by pat_completeness auto
termination
  by (relation "measure (\<lambda>(i, j, f). j - i)") auto

declare search_loop.simps [simp del]

definition sort_Search :: "nat \<Rightarrow> (nat \<Rightarrow> bool) \<Rightarrow> nat" where
  "sort_Search n f = search_loop 0 n f"

text \<open>\<open>bytes.Compare\<close>: -1, 0 or +1 by unsigned lexicographic order.\<close>

fun bytes_Compare :: "byte list \<Rightarrow> byte list \<Rightarrow> int" where
  "bytes_Compare [] [] = 0"
| "bytes_Compare [] (y # ys) = - 1"
| "bytes_Compare (x # xs) [] = 1"
| "bytes_Compare (x # xs) (y # ys) =
     (if x < y then - 1 else if y < x then 1 else bytes_Compare xs ys)"

text \<open>\<open>bytes.HasPrefix(s, p)\<close> is \<open>len(s) >= len(p) && bytes.Equal(s[:len(p)], p)\<close>.\<close>

definition bytes_HasPrefix :: "byte list \<Rightarrow> byte list \<Rightarrow> bool" where
  "bytes_HasPrefix s p \<longleftrightarrow> length p \<le> length s \<and> take (length p) s = p"

text \<open>
  The builtin \<open>copy(dst, src)\<close> copies \<open>min(len(dst), len(src))\<close> elements, with the
  source read before anything is written (overlapping slices are handled as by memmove);
  the result is the new content of \<open>dst\<close>.
\<close>

definition copy_into :: "'a list \<Rightarrow> 'a list \<Rightarrow> 'a list" where
  "copy_into dst src = take (length dst) src @ drop (length src) dst"

section \<open>Nodes\<close>

text \<open>
  The panics the modelled code can raise: the explicit \<open>panic("replacing missing edge")\<close>,
  an index out of range, and a nil pointer dereference.
\<close>

datatype error = ReplacingMissingEdge | IndexOutOfRange | NilDereference

text \<open>
  A leaf carries its full key and the value. A node carries its optional leaf, its prefix
  and its edges, each edge a label with the child node. \<open>addr\<close> stands for the address of
  the node object: the reverse iterator keys a map by \<open>*Node\<close>, so the identity of a node
  is part of the model. The read operations never look at the reference counts and the
  mutate channels; they are part of the heap model of \<open>clone\<close> further down.
\<close>

record 'v leafNode =
  key :: "byte list"
  val :: 'v

type_synonym 'n edge_of = "byte \<times> 'n"

datatype 'v Node =
  Node (addr: nat) (leaf: "'v leafNode option") (prefix: "byte list")
       (edges: "'v Node edge_of list")

abbreviation label :: "'n edge_of \<Rightarrow> byte" where
  "label e \<equiv> fst e"

abbreviation node :: "'n edge_of \<Rightarrow> 'n" where
  "node e \<equiv> snd e"

definition set_edges :: "'v Node \<Rightarrow> 'v Node edge_of list \<Rightarrow> 'v Node" where
  "set_edges n es = Node (addr n) (leaf n) (prefix n) es"

definition isLeaf :: "'v Node \<Rightarrow> bool" where
  "isLeaf n \<longleftrightarrow> leaf n \<noteq> None"

text \<open>The index every edge operation starts from: the first edge whose label is at least \<open>l\<close>.\<close>

definition edge_search :: "'v Node \<Rightarrow> byte \<Rightarrow> nat" where
  "edge_search n l = sort_Search (length (edges n)) (\<lambda>i. label (edges n ! i) \<ge> l)"

definition addEdge :: "'v Node \<Rightarrow> 'v Node edge_of \<Rightarrow> 'v Node" where
  "addEdge n e =
     (let num = length (edges n);
          idx = edge_search n (label e);
          es = edges n @ [e]
      in if idx \<noteq> num then
           (let es' = take (idx + 1) es @ copy_into (drop (idx + 1) es) (take (num - idx) (drop idx es))
            in set_edges n (es'[idx := e]))
         else set_edges n es)"

definition replaceEdge :: "'v Node \<Rightarrow> 'v Node edge_of \<Rightarrow> error + 'v Node" where
  "replaceEdge n e =
     (let num = length (edges n);
          idx = edge_search n (label e)
      in if idx < num \<and> label (edges n ! idx) = label e then
           Inr (set_edges n ((edges n)[idx := (label (edges n ! idx), node e)]))
         else Inl ReplacingMissingEdge)"

text \<open>\<open>getEdge\<close> and \<open>getLowerBoundEdge\<close> return \<open>(-1, nil)\<close> when they find nothing.\<close>

definition getEdge :: "'v Node \<Rightarrow> byte \<Rightarrow> int \<times> 'v Node option" where
  "getEdge n l =
     (let num = length (edges n);
          idx = edge_search n l
      in if idx < num \<and> label (edges n ! idx) = l then (int idx, Some (node (edges n ! idx)))
         else (- 1, None))"

definition getLowerBoundEdge :: "'v Node \<Rightarrow> byte \<Rightarrow> int \<times> 'v Node option" where
  "getLowerBoundEdge n l =
     (let num = length (edges n);
          idx = edge_search n l
      in if idx < num then (int idx, Some (node (edges n ! idx)))
         else (- 1, None))"

text \<open>
  \<open>delEdge\<close> shifts the tail one slot down, clears the last slot (so that the dropped
  child can be collected) and reslices that slot away; only the shift and the reslice
  show in the resulting edge list.
\<close>

definition delEdge :: "'v Node \<Rightarrow> byte \<Rightarrow> 'v Node" where
  "delEdge n l =
     (let num = length (edges n);
          idx = edge_search n l
      in if idx < num \<and> label (edges n ! idx) = l then
           (let es' = take idx (edges n) @ copy_into (drop idx (edges n)) (drop (idx + 1) (edges n))
            in set_edges n (take (length es' - 1) es'))
         else n)"

text \<open>The edge list is sorted strictly ascending by label (so the labels are distinct).\<close>

definition sorted_edges :: "'v Node \<Rightarrow> bool" where
  "sorted_edges n \<longleftrightarrow> sorted_wrt (<) (map fst (edges n))"

section \<open>Read operations\<close>

text \<open>Children are smaller than their parent: the descents below terminate.\<close>

lemma getEdge_child:
  "getEdge n l = (i, Some c) \<Longrightarrow> c \<in> node ` set (edges n)"
  by (auto simp: getEdge_def Let_def split: if_splits)

lemma getLowerBoundEdge_child:
  "getLowerBoundEdge n l = (i, Some c) \<Longrightarrow> c \<in> node ` set (edges n)"
  by (auto simp: getLowerBoundEdge_def Let_def split: if_splits)

lemma size_child:
  "c \<in> node ` set (edges n) \<Longrightarrow> size c < size n"
proof (cases n)
  case (Node a lf p es)
  assume "c \<in> node ` set (edges n)"
  then obtain l where "(l, c) \<in> set es" using Node by auto
  then have "size_prod (\<lambda>_. 0) size (l, c) \<le> size_list (size_prod (\<lambda>_. 0) size) es"
    by (simp add: size_list_estimation')
  then show ?thesis using Node by simp
qed

lemma size_getEdge:
  "snd (getEdge n l) = Some c \<Longrightarrow> size c < size n"
proof -
  assume "snd (getEdge n l) = Some c"
  then have "getEdge n l = (fst (getEdge n l), Some c)" by (metis prod.collapse)
  then show ?thesis using getEdge_child size_child by blast
qed

lemma size_edge_list:
  "size_list (\<lambda>e. size (node e)) es < size (Node a lf p es)"
proof -
  have "size_list (\<lambda>e. size (node e)) es \<le> size_list (size_prod (\<lambda>_. 0) size) es"
    by (rule size_list_pointwise) (auto simp: size_prod_simp)
  then show ?thesis by simp
qed

lemma size_list_rev: "size_list f (rev xs) = size_list f xs"
  by (induction xs) (simp_all add: size_list_append)

lemma size_getLowerBoundEdge:
  "getLowerBoundEdge n l = (i, Some c) \<Longrightarrow> size c < size n"
  using getLowerBoundEdge_child size_child by blast

text \<open>
  The content of a tree: the key and value of every leaf, the leaf of a node before the
  leaves below it, the children in the order of the edge list.
\<close>

fun leaves :: "'v Node \<Rightarrow> (byte list \<times> 'v) list" where
  "leaves (Node a lf p es) =
     (case lf of None \<Rightarrow> [] | Some l \<Rightarrow> [(key l, val l)]) @ concat (map (\<lambda>e. leaves (node e)) es)"

text \<open>
  A mutate channel is named by the object it belongs to: the node at an address, or the
  leaf of the node at an address. (The channels are allocated on first use; the lookups
  only hand them out.)
\<close>

datatype watch = NodeCh nat | LeafCh nat

text \<open>
  \<open>GetWatch\<close>: the loop state is the current node, the rest of the key and the last
  channel seen. The result \<open>(zero, false)\<close> is \<open>None\<close>, and \<open>(v, true)\<close> is \<open>Some v\<close>.
\<close>

function GetWatch_loop :: "'v Node \<Rightarrow> byte list \<Rightarrow> watch \<Rightarrow> watch \<times> 'v option" where
  "GetWatch_loop n search w =
     (if length search = 0 then
        (if isLeaf n then (LeafCh (addr n), Some (val (the (leaf n)))) else (w, None))
      else
        (case snd (getEdge n (search ! 0)) of
           None \<Rightarrow> (w, None)
         | Some n' \<Rightarrow>
             if bytes_HasPrefix search (prefix n')
             then GetWatch_loop n' (drop (length (prefix n')) search) (NodeCh (addr n'))
             else (NodeCh (addr n'), None)))"
  by pat_completeness auto
termination
  by (relation "measure (\<lambda>(n, search, w). size n)") (auto simp: size_getEdge)

declare GetWatch_loop.simps [simp del]

definition GetWatch :: "'v Node \<Rightarrow> byte list \<Rightarrow> watch \<times> 'v option" where
  "GetWatch n k = GetWatch_loop n k (NodeCh (addr n))"

definition Get :: "'v Node \<Rightarrow> byte list \<Rightarrow> 'v option" where
  "Get n k = snd (GetWatch n k)"

text \<open>\<open>LongestPrefix\<close>: the loop carries the last leaf seen.\<close>

function LongestPrefix_loop ::
  "'v Node \<Rightarrow> byte list \<Rightarrow> 'v leafNode option \<Rightarrow> 'v leafNode option" where
  "LongestPrefix_loop n search lst =
     (let last' = (if isLeaf n then leaf n else lst) in
      if length search = 0 then last'
      else
        (case snd (getEdge n (search ! 0)) of
           None \<Rightarrow> last'
         | Some n' \<Rightarrow>
             if bytes_HasPrefix search (prefix n')
             then LongestPrefix_loop n' (drop (length (prefix n')) search) last'
             else last'))"
  by pat_completeness auto
termination
  by (relation "measure (\<lambda>(n, search, lst). size n)") (auto simp: size_getEdge)

declare LongestPrefix_loop.simps [simp del]

definition LongestPrefix :: "'v Node \<Rightarrow> byte list \<Rightarrow> (byte list \<times> 'v) option" where
  "LongestPrefix n k =
     (case LongestPrefix_loop n k None of
        Some lst \<Rightarrow> Some (key lst, val lst)
      | None \<Rightarrow> None)"

function Minimum :: "'v Node \<Rightarrow> (byte list \<times> 'v) option" where
  "Minimum n =
     (if isLeaf n then Some (key (the (leaf n)), val (the (leaf n)))
      else if length (edges n) > 0 then Minimum (node (edges n ! 0))
      else None)"
  by pat_completeness auto
termination
  by (relation "measure size") (auto intro!: size_child)

declare Minimum.simps [simp del]

function Maximum :: "'v Node \<Rightarrow> (byte list \<times> 'v) option" where
  "Maximum n =
     (let num = length (edges n) in
      if num > 0 then Maximum (node (edges n ! (num - 1)))
      else if isLeaf n then Some (key (the (leaf n)), val (the (leaf n)))
      else None)"
  by pat_completeness auto
termination
  by (relation "measure size") (auto intro!: size_child)

declare Maximum.simps [simp del]

text \<open>
  The walks call \<open>fn\<close> on every leaf until it returns true. What the callback does to the
  outside world is a state \<open>'s\<close> that it reads and returns; the walk returns whether it
  was aborted, and the state.
\<close>

type_synonym ('v, 's) WalkFn = "byte list \<Rightarrow> 'v \<Rightarrow> 's \<Rightarrow> bool \<times> 's"

function (sequential) recursiveWalk :: "'v Node \<Rightarrow> ('v, 's) WalkFn \<Rightarrow> 's \<Rightarrow> bool \<times> 's"
  and recursiveWalk_edges :: "'v Node edge_of list \<Rightarrow> ('v, 's) WalkFn \<Rightarrow> 's \<Rightarrow> bool \<times> 's" where
  "recursiveWalk (Node a lf p es) fn s =
     (case lf of
        None \<Rightarrow> recursiveWalk_edges es fn s
      | Some l \<Rightarrow>
          (case fn (key l) (val l) s of
             (True, s') \<Rightarrow> (True, s')
           | (False, s') \<Rightarrow> recursiveWalk_edges es fn s'))"
| "recursiveWalk_edges [] fn s = (False, s)"
| "recursiveWalk_edges (e # es) fn s =
     (case recursiveWalk (node e) fn s of
        (True, s') \<Rightarrow> (True, s')
      | (False, s') \<Rightarrow> recursiveWalk_edges es fn s')"
  by pat_completeness auto
termination
  by (relation "measure (\<lambda>x. case x of Inl (n, fn, s) \<Rightarrow> size n
                                   | Inr (es, fn, s) \<Rightarrow> size_list (\<lambda>e. size (node e)) es)")
     (auto simp: size_edge_list simp del: Node.size)

text \<open>
  \<open>reverseRecursiveWalk\<close> runs the index down from \<open>len(n.edges) - 1\<close> to 0; the second
  function is that loop, at index \<open>i - 1\<close>.
\<close>

function (sequential) reverseRecursiveWalk :: "'v Node \<Rightarrow> ('v, 's) WalkFn \<Rightarrow> 's \<Rightarrow> bool \<times> 's"
  and reverseRecursiveWalk_edges :: "'v Node edge_of list \<Rightarrow> ('v, 's) WalkFn \<Rightarrow> 's \<Rightarrow> bool \<times> 's" where
  "reverseRecursiveWalk (Node a lf p es) fn s =
     (case lf of
        None \<Rightarrow> reverseRecursiveWalk_edges (rev es) fn s
      | Some l \<Rightarrow>
          (case fn (key l) (val l) s of
             (True, s') \<Rightarrow> (True, s')
           | (False, s') \<Rightarrow> reverseRecursiveWalk_edges (rev es) fn s'))"
| "reverseRecursiveWalk_edges [] fn s = (False, s)"
| "reverseRecursiveWalk_edges (e # es) fn s =
     (case reverseRecursiveWalk (node e) fn s of
        (True, s') \<Rightarrow> (True, s')
      | (False, s') \<Rightarrow> reverseRecursiveWalk_edges es fn s')"
  by pat_completeness auto
termination
  by (relation "measure (\<lambda>x. case x of Inl (n, fn, s) \<Rightarrow> size n
                                   | Inr (es, fn, s) \<Rightarrow> size_list (\<lambda>e. size (node e)) es)")
     (auto simp: size_edge_list size_list_rev simp del: Node.size)

definition Walk :: "'v Node \<Rightarrow> ('v, 's) WalkFn \<Rightarrow> 's \<Rightarrow> 's" where
  "Walk n fn s = snd (recursiveWalk n fn s)"

definition WalkBackwards :: "'v Node \<Rightarrow> ('v, 's) WalkFn \<Rightarrow> 's \<Rightarrow> 's" where
  "WalkBackwards n fn s = snd (reverseRecursiveWalk n fn s)"

text \<open>The callback that never aborts and records what it is called with.\<close>

definition record_visit :: "('v, (byte list \<times> 'v) list) WalkFn" where
  "record_visit k v s = (False, s @ [(k, v)])"

section \<open>Iterators\<close>

text \<open>
  The iterator keeps the node it was created at and a stack of node slices. The Go slice
  \<open>stack\<close> grows at its end; here the head of the list is the top of the stack (the last
  element of the Go slice), the slices themselves are in Go order. A nil stack (\<open>None\<close>)
  and an empty one are different states: \<open>Next\<close> pushes the start node only on a nil
  stack. The iterators use the edge list of a node as a slice of its children (written
  \<open>edges\<close> in the forward iterator, \<open>children\<close> in the reverse one): \<open>map node (edges n)\<close>.
  The field \<open>node\<close> of the iterator is \<open>it_node\<close> here.
\<close>

type_synonym 'v stack = "'v Node list list option"

record 'v Iterator =
  it_node :: "'v Node option"
  stack :: "'v stack"

definition children :: "'v Node \<Rightarrow> 'v Node list" where
  "children n = map node (edges n)"

text \<open>\<open>i.stack = append(i.stack, ns)\<close>\<close>

definition push :: "'v Node list \<Rightarrow> 'v stack \<Rightarrow> 'v stack" where
  "push ns st = Some (ns # (case st of None \<Rightarrow> [] | Some s \<Rightarrow> s))"

definition Iterator :: "'v Node \<Rightarrow> 'v Iterator" where
  "Iterator n = \<lparr>it_node = Some n, stack = None\<rparr>"

text \<open>
  The loop of \<open>Next\<close> on a non-nil stack: it returns the leaf found, or \<open>None\<close> when the
  stack runs empty, with the stack it leaves. \<open>last[0]\<close> on an empty slice is a panic.
\<close>

function Next_loop ::
  "'v Node list list \<Rightarrow> error + ((byte list \<times> 'v) option \<times> 'v Node list list)" where
  "Next_loop [] = Inr (None, [])"
| "Next_loop (lst # rest) =
     (case lst of
        [] \<Rightarrow> Inl IndexOutOfRange
      | elem # others \<Rightarrow>
          (let st1 = (if length lst > 1 then others # rest else rest);
               st2 = (if length (children elem) > 0 then children elem # st1 else st1)
           in case leaf elem of
                Some l \<Rightarrow> Inr (Some (key l, val l), st2)
              | None \<Rightarrow> Next_loop st2))"
  by pat_completeness auto
termination
proof (relation "measure (\<lambda>st. sum_list (map (size_list size) st))")
  show "wf (measure (\<lambda>st. sum_list (map (size_list size) st)))" by simp
next
  fix lst :: "'v Node list" and rest elem others st1 st2
  assume a: "lst = elem # others"
    "st1 = (if 1 < length lst then others # rest else rest)"
    "st2 = (if 0 < length (children elem) then children elem # st1 else st1)"
  have c: "size_list size (children elem) < size elem"
    by (cases elem) (simp add: children_def size_list_conv_sum_list comp_def
        size_edge_list[unfolded size_list_conv_sum_list comp_def] del: Node.size)
  have 1: "sum_list (map (size_list size) st1) + size elem < sum_list (map (size_list size) (lst # rest))"
    using a(1,2) by (cases others) auto
  have 2: "sum_list (map (size_list size) st2) \<le> sum_list (map (size_list size) st1) + size elem"
    using a(3) c by auto
  show "(st2, lst # rest) \<in> measure (\<lambda>st. sum_list (map (size_list size) st))"
    using 1 2 by simp
qed

declare Next_loop.simps [simp del]

definition Next :: "'v Iterator \<Rightarrow> error + ((byte list \<times> 'v) option \<times> 'v Iterator)" where
  "Next i =
     (let i1 = (if stack i = None \<and> it_node i \<noteq> None
                then i\<lparr>stack := push [the (it_node i)] (stack i)\<rparr> else i)
      in case stack i1 of
           None \<Rightarrow> Inr (None, i1)
         | Some st \<Rightarrow>
             (case Next_loop st of
                Inl e \<Rightarrow> Inl e
              | Inr (r, st') \<Rightarrow> Inr (r, i1\<lparr>stack := Some st'\<rparr>)))"

text \<open>\<open>recurseMin\<close> pushes on the iterator's stack; it takes the stack and returns it.\<close>

function recurseMin :: "'v Node \<Rightarrow> 'v stack \<Rightarrow> 'v Node option \<times> 'v stack" where
  "recurseMin n st =
     (if leaf n \<noteq> None then (Some n, st)
      else
        (let nChildren = length (children n);
             st1 = (if nChildren > 1 then push (drop 1 (children n)) st else st)
         in if nChildren > 0 then recurseMin (children n ! 0) st1
            else (None, st1)))"
  by pat_completeness auto
termination
  by (relation "measure (\<lambda>(n, st). size n)") (auto simp: children_def intro!: size_child)

declare recurseMin.simps [simp del]

definition found :: "'v Node \<Rightarrow> 'v stack \<Rightarrow> 'v stack" where
  "found n st = push [n] st"

definition findMin :: "'v Node \<Rightarrow> 'v stack \<Rightarrow> 'v stack" where
  "findMin n st =
     (case recurseMin n st of
        (Some n', st') \<Rightarrow> found n' st'
      | (None, st') \<Rightarrow> st')"

definition prefixCmp :: "'v Node \<Rightarrow> byte list \<Rightarrow> int" where
  "prefixCmp n search =
     (if length (prefix n) < length search
      then bytes_Compare (prefix n) (take (length (prefix n)) search)
      else bytes_Compare (prefix n) search)"

function SeekLowerBound_loop ::
  "'v Node \<Rightarrow> byte list \<Rightarrow> byte list \<Rightarrow> 'v stack \<Rightarrow> 'v stack" where
  "SeekLowerBound_loop n search k st =
     (if prefixCmp n search > 0 then findMin n st
      else if prefixCmp n search < 0 then st
      else if leaf n \<noteq> None \<and> key (the (leaf n)) = k then found n st
      else
        (let search' = drop (length (prefix n)) search in
         if length search' = 0 then findMin n st
         else
           (case getLowerBoundEdge n (search' ! 0) of
              (idx, None) \<Rightarrow> st
            | (idx, Some lbNode) \<Rightarrow>
                (let st1 = (if idx + 1 < int (length (children n))
                            then push (drop (nat (idx + 1)) (children n)) st else st)
                 in SeekLowerBound_loop lbNode search' k st1))))"
  by pat_completeness auto
termination
  by (relation "measure (\<lambda>(n, search, k, st). size n)")
     (auto intro: size_getLowerBoundEdge[OF sym])

declare SeekLowerBound_loop.simps [simp del]

definition SeekLowerBound :: "'v Iterator \<Rightarrow> byte list \<Rightarrow> error + 'v Iterator" where
  "SeekLowerBound i k =
     (case it_node i of
        None \<Rightarrow> Inl NilDereference
      | Some n \<Rightarrow> Inr \<lparr>it_node = None, stack = SeekLowerBound_loop n k k None\<rparr>)"

text \<open>
  Draining an iterator: \<open>Next\<close> is called until it reports false, and the pairs it
  returned are collected in order. Every call that returns a pair has popped a node, so
  the nodes held by the iterator get fewer and the drain ends.
\<close>

definition held :: "'v Iterator \<Rightarrow> nat" where
  "held i =
     (case stack i of
        None \<Rightarrow> (case it_node i of None \<Rightarrow> 0 | Some n \<Rightarrow> Suc (size n))
      | Some st \<Rightarrow> sum_list (map (size_list size) st))"

lemma size_children: "size_list size (children n) < size n"
  using size_edge_list[of "edges n" "addr n" "leaf n" "prefix n"]
  by (simp add: children_def size_list_conv_sum_list comp_def del: Node.size)

lemma Next_loop_held:
  "Next_loop st = Inr (Some kv, st') \<Longrightarrow>
     sum_list (map (size_list size) st') < sum_list (map (size_list size) st)"
proof (induction st rule: Next_loop.induct)
  case 1
  then show ?case by (simp add: Next_loop.simps)
next
  case (2 lst rest)
  show ?case
  proof (cases lst)
    case Nil
    then show ?thesis using "2.prems" by (simp add: Next_loop.simps)
  next
    case (Cons elem others)
    define st1 where "st1 = (if length lst > 1 then others # rest else rest)"
    define st2 where "st2 = (if length (children elem) > 0 then children elem # st1 else st1)"
    have 1: "sum_list (map (size_list size) st1) + size elem < sum_list (map (size_list size) (lst # rest))"
      using Cons by (cases others) (auto simp: st1_def)
    have 2: "sum_list (map (size_list size) st2) \<le> sum_list (map (size_list size) st1) + size elem"
      using size_children[of elem] by (auto simp: st2_def)
    show ?thesis
    proof (cases "leaf elem")
      case None
      then have "Next_loop (lst # rest) = Next_loop st2"
        using Cons by (simp add: Next_loop.simps st1_def st2_def Let_def)
      then have "sum_list (map (size_list size) st') < sum_list (map (size_list size) st2)"
        using "2.IH"[OF Cons st1_def st2_def None] "2.prems" by simp
      then show ?thesis using 1 2 by simp
    next
      case (Some l)
      then have "Next_loop (lst # rest) = Inr (Some (key l, val l), st2)"
        using Cons by (simp add: Next_loop.simps st1_def st2_def Let_def)
      then have "st' = st2" using "2.prems" by simp
      then show ?thesis using 1 2 by simp
    qed
  qed
qed

lemma Next_held:
  "Next i = Inr (Some kv, i') \<Longrightarrow> held i' < held i"
  by (auto simp: Next_def Let_def held_def push_def
      split: option.splits sum.splits if_splits dest!: Next_loop_held)

function drain :: "'v Iterator \<Rightarrow> error + (byte list \<times> 'v) list" where
  "drain i =
     (case Next i of
        Inl e \<Rightarrow> Inl e
      | Inr (None, i') \<Rightarrow> Inr []
      | Inr (Some kv, i') \<Rightarrow>
          (case drain i' of Inl e \<Rightarrow> Inl e | Inr kvs \<Rightarrow> Inr (kv # kvs)))"
  by pat_completeness auto
termination
  by (relation "measure held") (auto simp: Next_held)

declare drain.simps [simp del]

text \<open>
  The reverse iterator wraps an iterator (field \<open>i\<close>, here \<open>iter\<close>) and the set of
  expanded parents, a map keyed by node pointers: the set of their addresses. A nil map
  reads as the empty map and is replaced by an empty one before the first write.
\<close>

record 'v ReverseIterator =
  iter :: "'v Iterator"
  expandedParents :: "nat set"

definition NewReverseIterator :: "'v Node \<Rightarrow> 'v ReverseIterator" where
  "NewReverseIterator n = \<lparr>iter = \<lparr>it_node = Some n, stack = None\<rparr>, expandedParents = {}\<rparr>"

function SeekReverseLowerBound_loop ::
  "'v Node \<Rightarrow> byte list \<Rightarrow> byte list \<Rightarrow> 'v stack \<Rightarrow> nat set \<Rightarrow> 'v stack \<times> nat set" where
  "SeekReverseLowerBound_loop n search k st ex =
     (if prefixCmp n search < 0 then (push [n] st, ex)
      else if prefixCmp n search > 0 then (st, ex)
      else if isLeaf n \<and> key (the (leaf n)) = k then (push [n] st, insert (addr n) ex)
      else if isLeaf n \<and> length (children n) = 0 then (push [n] st, insert (addr n) ex)
      else
        (let st1 = (if isLeaf n then push [n] st else st);
             ex1 = (if isLeaf n then insert (addr n) ex else ex);
             search' = drop (length (prefix n)) search
         in if length search' = 0 then (st1, ex1)
            else
              (case getLowerBoundEdge n (search' ! 0) of
                 (idx, lbNode) \<Rightarrow>
                   (let idx' = (if idx = - 1 then int (length (children n)) else idx);
                        st2 = (if idx' > 0 then push (take (nat idx') (children n)) st1 else st1)
                    in case lbNode of
                         None \<Rightarrow> (st2, ex1)
                       | Some n' \<Rightarrow> SeekReverseLowerBound_loop n' search' k st2 ex1))))"
  by pat_completeness auto
termination
  by (relation "measure (\<lambda>(n, search, k, st, ex). size n)")
     (auto intro: size_getLowerBoundEdge[OF sym])

declare SeekReverseLowerBound_loop.simps [simp del]

definition SeekReverseLowerBound ::
  "'v ReverseIterator \<Rightarrow> byte list \<Rightarrow> error + 'v ReverseIterator" where
  "SeekReverseLowerBound ri k =
     (case it_node (iter ri) of
        None \<Rightarrow> Inl NilDereference
      | Some n \<Rightarrow>
          (case SeekReverseLowerBound_loop n k k None (expandedParents ri) of
             (st, ex) \<Rightarrow> Inr \<lparr>iter = \<lparr>it_node = None, stack = st\<rparr>, expandedParents = ex\<rparr>))"

text \<open>
  The loop of \<open>Previous\<close>. A node that is expanded goes back on the stack under its
  children, so the loop ends only because the node is then found in the set; with the
  same address at a node and below it this need not happen, and the loop is a partial
  function: \<open>None\<close> is a loop that does not return.
\<close>

partial_function (option) Previous_loop ::
  "'v Node list list \<Rightarrow> nat set \<Rightarrow>
     (error + ((byte list \<times> 'v) option \<times> 'v Node list list \<times> nat set)) option" where
  "Previous_loop st ex =
     (case st of
        [] \<Rightarrow> Some (Inr (None, [], ex))
      | top' # rest \<Rightarrow>
          (if length top' = 0 then Some (Inl IndexOutOfRange)
           else
             (let elem = top' ! (length top' - 1);
                  st1 = (if length top' > 1 then take (length top' - 1) top' # rest else rest);
                  alreadyExpanded = (addr elem \<in> ex)
              in if length (children elem) > 0 \<and> \<not> alreadyExpanded
                 then Previous_loop (children elem # [elem] # st1) (insert (addr elem) ex)
                 else
                   (let ex1 = (if alreadyExpanded then ex - {addr elem} else ex)
                    in case leaf elem of
                         Some l \<Rightarrow> Some (Inr (Some (key l, val l), st1, ex1))
                       | None \<Rightarrow> Previous_loop st1 ex1))))"

declare Previous_loop.simps [code]

definition Previous ::
  "'v ReverseIterator \<Rightarrow> (error + ((byte list \<times> 'v) option \<times> 'v ReverseIterator)) option" where
  "Previous ri =
     (let i1 = (if stack (iter ri) = None \<and> it_node (iter ri) \<noteq> None
                then (iter ri)\<lparr>stack := push [the (it_node (iter ri))] (stack (iter ri))\<rparr>
                else iter ri)
      in case stack i1 of
           None \<Rightarrow> Some (Inr (None, ri\<lparr>iter := i1\<rparr>))
         | Some st \<Rightarrow>
             (case Previous_loop st (expandedParents ri) of
                None \<Rightarrow> None
              | Some (Inl e) \<Rightarrow> Some (Inl e)
              | Some (Inr (r, st', ex')) \<Rightarrow>
                  Some (Inr (r, \<lparr>iter = i1\<lparr>stack := Some st'\<rparr>, expandedParents = ex'\<rparr>))))"

text \<open>Draining the reverse iterator with \<open>Previous\<close>.\<close>

partial_function (option) drain_reverse ::
  "'v ReverseIterator \<Rightarrow> (error + (byte list \<times> 'v) list) option" where
  "drain_reverse ri =
     Option.bind (Previous ri) (\<lambda>r.
       case r of
         Inl e \<Rightarrow> Some (Inl e)
       | Inr (None, ri') \<Rightarrow> Some (Inr [])
       | Inr (Some kv, ri') \<Rightarrow>
           Option.bind (drain_reverse ri') (\<lambda>r'.
             case r' of Inl e \<Rightarrow> Some (Inl e) | Inr kvs \<Rightarrow> Some (Inr (kv # kvs))))"

declare drain_reverse.simps [code]

section \<open>Well-formed trees\<close>

text \<open>
  The structural invariants of a node below the path \<open>acc\<close> (the prefixes from the root
  down to its parent): a leaf holds the accumulated path as its key, the edge labels are
  strictly ascending, and every child has a non-empty prefix that starts with the label of
  its edge, and is well-formed below the longer path.
\<close>

function node_ok :: "byte list \<Rightarrow> 'v Node \<Rightarrow> bool" where
  "node_ok acc n \<longleftrightarrow>
     (case leaf n of None \<Rightarrow> True | Some l \<Rightarrow> key l = acc @ prefix n) \<and>
     sorted_edges n \<and>
     (\<forall>e \<in> set (edges n).
        prefix (node e) \<noteq> [] \<and> hd (prefix (node e)) = label e \<and>
        node_ok (acc @ prefix n) (node e))"
  by pat_completeness auto
termination
  by (relation "measure (\<lambda>(acc, n). size n)") (auto intro!: size_child)

declare node_ok.simps [simp del]

text \<open>A tree is a well-formed root; the root of a tree has the empty prefix.\<close>

definition valid_tree :: "'v Node \<Rightarrow> bool" where
  "valid_tree t \<longleftrightarrow> prefix t = [] \<and> node_ok [] t"

text \<open>Below the root, a node without edges carries a leaf.\<close>

function no_dead_ends :: "'v Node \<Rightarrow> bool" where
  "no_dead_ends n \<longleftrightarrow>
     (\<forall>e \<in> set (edges n).
        (edges (node e) = [] \<longrightarrow> leaf (node e) \<noteq> None) \<and> no_dead_ends (node e))"
  by pat_completeness auto
termination
  by (relation "measure size") (auto intro!: size_child)

declare no_dead_ends.simps [simp del]

text \<open>The addresses of the nodes of a tree; in a tree every node is an object of its own.\<close>

function addrs :: "'v Node \<Rightarrow> nat list" where
  "addrs n = addr n # concat (map (\<lambda>e. addrs (node e)) (edges n))"
  by pat_completeness auto
termination
  by (relation "measure size") (auto intro!: size_child)

declare addrs.simps [simp del]

definition distinct_nodes :: "'v Node \<Rightarrow> bool" where
  "distinct_nodes t \<longleftrightarrow> distinct (addrs t)"


text \<open>The leaves of a tree whose key is a prefix of \<open>k\<close>.\<close>

definition prefixes_of :: "byte list \<Rightarrow> 'v Node \<Rightarrow> (byte list \<times> 'v) set" where
  "prefixes_of k m = {kv \<in> set (leaves m). bytes_HasPrefix k (fst kv)}"

text \<open>
  A tree to run the operations on: the keys \<open>a\<close>, \<open>ab\<close>, \<open>foo\<close>, \<open>foobar\<close> and \<open>foozip\<close>
  with the values 1 to 5.
\<close>

definition example_tree :: "nat Node" where
  "example_tree =
     Node 0 None []
       [(97, Node 1 (Some \<lparr>key = [97], val = 1\<rparr>) [97]
               [(98, Node 2 (Some \<lparr>key = [97, 98], val = 2\<rparr>) [98] [])]),
        (102, Node 3 (Some \<lparr>key = [102, 111, 111], val = 3\<rparr>) [102, 111, 111]
               [(98, Node 4 (Some \<lparr>key = [102, 111, 111, 98, 97, 114], val = 4\<rparr>) [98, 97, 114] []),
                (122, Node 5 (Some \<lparr>key = [102, 111, 111, 122, 105, 112], val = 5\<rparr>) [122, 105, 112] [])])]"

definition visit_all :: "('v, 's) WalkFn \<Rightarrow> 's \<Rightarrow> (byte list \<times> 'v) list \<Rightarrow> 's" where
  "visit_all fn s kvs = foldl (\<lambda>s kv. snd (fn (fst kv) (snd kv) s)) s kvs"

definition stack_out :: "'v Node list list \<Rightarrow> (byte list \<times> 'v) list" where
  "stack_out st = concat (map (\<lambda>sl. concat (map leaves sl)) st)"

text \<open>The order in which \<open>reverseRecursiveWalk\<close> reaches the leaves.\<close>

function backwards :: "'v Node \<Rightarrow> (byte list \<times> 'v) list" where
  "backwards n =
     (case leaf n of None \<Rightarrow> [] | Some l \<Rightarrow> [(key l, val l)]) @
     concat (map (\<lambda>e. backwards (node e)) (rev (edges n)))"
  by pat_completeness auto
termination
  by (relation "measure size") (auto intro!: size_child)

declare backwards.simps [simp del]

text \<open>No key of the tree is a proper prefix of another key of the tree.\<close>

definition no_key_extends_another :: "'v Node \<Rightarrow> bool" where
  "no_key_extends_another t \<longleftrightarrow>
     (\<forall>kv \<in> set (leaves t). \<forall>kv' \<in> set (leaves t).
        bytes_HasPrefix (fst kv') (fst kv) \<longrightarrow> fst kv' = fst kv)"

text \<open>A tree with the keys \<open>ab\<close>, \<open>ac\<close> and \<open>b\<close>: none is a prefix of another.\<close>

definition tips_tree :: "nat Node" where
  "tips_tree =
     Node 0 None []
       [(97, Node 1 None [97]
               [(98, Node 2 (Some \<lparr>key = [97, 98], val = 1\<rparr>) [98] []),
                (99, Node 3 (Some \<lparr>key = [97, 99], val = 2\<rparr>) [99] [])]),
        (98, Node 4 (Some \<lparr>key = [98], val = 3\<rparr>) [98] [])]"

text \<open>What an iterator with a given stack has yet to return, and the shape every push keeps.\<close>

definition pending :: "'v stack \<Rightarrow> (byte list \<times> 'v) list" where
  "pending st = (case st of None \<Rightarrow> [] | Some s \<Rightarrow> stack_out s)"

definition slices_nonempty :: "'v stack \<Rightarrow> bool" where
  "slices_nonempty st \<longleftrightarrow> (case st of None \<Rightarrow> True | Some s \<Rightarrow> \<forall>sl \<in> set s. sl \<noteq> [])"

text \<open>\<open>SeekLowerBound(k)\<close> on an iterator rooted at \<open>t\<close>, then \<open>Next\<close> until it reports false.\<close>

definition SeekLowerBound_then_drain :: "'v Node \<Rightarrow> byte list \<Rightarrow> error + (byte list \<times> 'v) list" where
  "SeekLowerBound_then_drain t k =
     (case SeekLowerBound (Iterator t) k of Inl e \<Rightarrow> Inl e | Inr i \<Rightarrow> drain i)"

text \<open>The pair a node holds itself, and a result with pairs returned before it.\<close>

definition own_leaf :: "'v Node \<Rightarrow> (byte list \<times> 'v) list" where
  "own_leaf n = (case leaf n of None \<Rightarrow> [] | Some l \<Rightarrow> [(key l, val l)])"

definition yield_first ::
  "'a list \<Rightarrow> (error + 'a list) option \<Rightarrow> (error + 'a list) option" where
  "yield_first xs r =
     (case r of None \<Rightarrow> None | Some (Inl e) \<Rightarrow> Some (Inl e) | Some (Inr ys) \<Rightarrow> Some (Inr (xs @ ys)))"

definition rdrain :: "'v Node list list \<Rightarrow> nat set \<Rightarrow> (error + (byte list \<times> 'v) list) option" where
  "rdrain s ex = drain_reverse \<lparr>iter = \<lparr>it_node = None, stack = Some s\<rparr>, expandedParents = ex\<rparr>"

definition popped :: "'a list \<Rightarrow> 'a list list \<Rightarrow> 'a list list" where
  "popped pre rest = (if pre = [] then rest else pre # rest)"

text \<open>
  Addresses stand for pointers, so a node with the address of a node below it would be a
  pointer cycle.
\<close>

function no_cycle :: "'v Node \<Rightarrow> bool" where
  "no_cycle n \<longleftrightarrow> (\<forall>e \<in> set (edges n). addr n \<notin> set (addrs (node e)) \<and> no_cycle (node e))"
  by pat_completeness auto
termination
  by (relation "measure size") (auto intro!: size_child)

declare no_cycle.simps [simp del]

text \<open>The slices of a stack, a nil stack having none.\<close>

definition slices :: "'v stack \<Rightarrow> 'v Node list list" where
  "slices st = (case st of None \<Rightarrow> [] | Some s \<Rightarrow> s)"

section \<open>Binary search on a sorted edge list\<close>

lemma search_loop_spec:
  assumes "\<forall>a b. a \<le> b \<and> b < n \<and> f a \<longrightarrow> f b"
    and "i \<le> j" and "j \<le> n"
    and "\<forall>k<i. \<not> f k" and "\<forall>k. j \<le> k \<and> k < n \<longrightarrow> f k"
  shows "i \<le> search_loop i j f \<and> search_loop i j f \<le> j \<and>
         (\<forall>k. k < search_loop i j f \<longrightarrow> \<not> f k) \<and>
         (\<forall>k. search_loop i j f \<le> k \<and> k < n \<longrightarrow> f k)"
  using assms
proof (induction i j f rule: search_loop.induct)
  case (1 i j f)
  show ?case
  proof (cases "i < j")
    case False
    then have "search_loop i j f = i" by (subst search_loop.simps) simp
    moreover have "i = j" using False "1.prems"(2) by simp
    ultimately show ?thesis using "1.prems"(4,5) by simp
  next
    case True
    define h where "h = (i + j) div 2"
    have hb: "i \<le> h" "h < j" using True by (auto simp: h_def)
    show ?thesis
    proof (cases "f h")
      case fh: True
      have eq: "search_loop i j f = search_loop i h f"
        using True fh by (subst search_loop.simps) (simp add: h_def Let_def)
      have up: "\<forall>k. h \<le> k \<and> k < n \<longrightarrow> f k"
        using fh "1.prems"(1) by blast
      have hn: "h \<le> n" using hb "1.prems"(3) by simp
      have "i \<le> search_loop i h f \<and> search_loop i h f \<le> h \<and>
         (\<forall>k. k < search_loop i h f \<longrightarrow> \<not> f k) \<and>
         (\<forall>k. search_loop i h f \<le> k \<and> k < n \<longrightarrow> f k)"
        apply (rule "1.IH"(2)[OF True h_def])
        subgoal using fh by simp
        subgoal by (rule "1.prems"(1))
        subgoal by (rule hb(1))
        subgoal by (rule hn)
        subgoal by (rule "1.prems"(4))
        subgoal by (rule up)
        done
      then show ?thesis unfolding eq using hb(2) by auto
    next
      case nfh: False
      have eq: "search_loop i j f = search_loop (h + 1) j f"
        using True nfh by (subst search_loop.simps) (simp add: h_def Let_def)
      have hn: "h < n" using hb "1.prems"(3) by simp
      have lo: "\<forall>k<h + 1. \<not> f k"
      proof (intro allI impI)
        fix k assume "k < h + 1"
        then have "k \<le> h" by simp
        then show "\<not> f k" using nfh hn "1.prems"(1) by blast
      qed
      have hj: "h + 1 \<le> j" using hb(2) by simp
      have "h + 1 \<le> search_loop (h + 1) j f \<and> search_loop (h + 1) j f \<le> j \<and>
         (\<forall>k. k < search_loop (h + 1) j f \<longrightarrow> \<not> f k) \<and>
         (\<forall>k. search_loop (h + 1) j f \<le> k \<and> k < n \<longrightarrow> f k)"
        apply (rule "1.IH"(1)[OF True h_def])
        subgoal by (rule nfh)
        subgoal by (rule "1.prems"(1))
        subgoal by (rule hj)
        subgoal by (rule "1.prems"(3))
        subgoal by (rule lo)
        subgoal by (rule "1.prems"(5))
        done
      then show ?thesis unfolding eq using hb(1) by auto
    qed
  qed
qed

lemma sort_Search_spec:
  assumes "\<forall>a b. a \<le> b \<and> b < n \<and> f a \<longrightarrow> f b"
  shows "sort_Search n f \<le> n \<and> (\<forall>k. k < sort_Search n f \<longrightarrow> \<not> f k) \<and>
         (\<forall>k. sort_Search n f \<le> k \<and> k < n \<longrightarrow> f k)"
proof -
  have "0 \<le> search_loop 0 n f \<and> search_loop 0 n f \<le> n \<and>
         (\<forall>k. k < search_loop 0 n f \<longrightarrow> \<not> f k) \<and>
         (\<forall>k. search_loop 0 n f \<le> k \<and> k < n \<longrightarrow> f k)"
    by (rule search_loop_spec[OF assms]) auto
  then show ?thesis unfolding sort_Search_def by blast
qed

text \<open>On a sorted edge list the search splits the list at the label.\<close>

lemma sorted_edges_nth_less:
  assumes "sorted_edges n" and "a < b" and "b < length (edges n)"
  shows "label (edges n ! a) < label (edges n ! b)"
proof -
  have "sorted_wrt (<) (map fst (edges n))"
    using assms(1) by (simp only: sorted_edges_def)
  then have "map fst (edges n) ! a < map fst (edges n) ! b"
    by (rule sorted_wrt_nth_less) (use assms(2,3) in simp_all)
  then show ?thesis using assms(2,3) by simp
qed

lemma edge_search_spec:
  assumes "sorted_edges n"
  shows "edge_search n l \<le> length (edges n)"
    and "\<And>k. k < edge_search n l \<Longrightarrow> label (edges n ! k) < l"
    and "\<And>k. edge_search n l \<le> k \<Longrightarrow> k < length (edges n) \<Longrightarrow> l \<le> label (edges n ! k)"
proof -
  define f where "f = (\<lambda>i. label (edges n ! i) \<ge> l)"
  have mono: "\<forall>a b. a \<le> b \<and> b < length (edges n) \<and> f a \<longrightarrow> f b"
  proof (intro allI impI)
    fix a b assume h: "a \<le> b \<and> b < length (edges n) \<and> f a"
    have "label (edges n ! a) \<le> label (edges n ! b)"
    proof (cases "a = b")
      case True then show ?thesis by simp
    next
      case False
      then have "a < b" using h by simp
      then show ?thesis using sorted_edges_nth_less[OF assms, of a b] h by simp
    qed
    moreover have "l \<le> label (edges n ! a)" using h by (simp add: f_def)
    ultimately show "f b" unfolding f_def by (rule order_trans[rotated])
  qed
  have es: "edge_search n l = sort_Search (length (edges n)) f"
    by (simp add: edge_search_def f_def)
  note s = sort_Search_spec[OF mono, folded es]
  show "edge_search n l \<le> length (edges n)" using s by blast
  show "\<And>k. k < edge_search n l \<Longrightarrow> label (edges n ! k) < l"
  proof -
    fix k assume "k < edge_search n l"
    then have "\<not> f k" using s by blast
    then show "label (edges n ! k) < l" by (simp add: f_def not_le)
  qed
  show "\<And>k. edge_search n l \<le> k \<Longrightarrow> k < length (edges n) \<Longrightarrow> l \<le> label (edges n ! k)"
  proof -
    fix k assume "edge_search n l \<le> k" "k < length (edges n)"
    then have "f k" using s by blast
    then show "l \<le> label (edges n ! k)" by (simp add: f_def)
  qed
qed

lemma edge_search_take:
  assumes "sorted_edges n"
  shows "take (edge_search n l) (edges n) = filter (\<lambda>e. label e < l) (edges n)"
proof -
  define idx where "idx = edge_search n l"
  have a: "\<forall>x \<in> set (take idx (edges n)). label x < l"
  proof
    fix x assume "x \<in> set (take idx (edges n))"
    then obtain k where k: "k < idx" "k < length (edges n)" "x = edges n ! k"
      by (auto simp: in_set_conv_nth)
    then show "label x < l"
      using edge_search_spec(2)[OF assms, where l=l and k=k] unfolding idx_def by simp
  qed
  have b: "\<forall>x \<in> set (drop idx (edges n)). \<not> label x < l"
  proof
    fix x assume "x \<in> set (drop idx (edges n))"
    then obtain k where k: "k < length (edges n) - idx" "x = edges n ! (idx + k)"
      by (auto simp: in_set_conv_nth)
    then have "l \<le> label (edges n ! (idx + k))"
      using edge_search_spec(3)[OF assms, where l=l and k="idx + k"] unfolding idx_def by simp
    then show "\<not> label x < l" using k by (simp add: not_less)
  qed
  have "filter (\<lambda>e. label e < l) (edges n)
        = filter (\<lambda>e. label e < l) (take idx (edges n)) @ filter (\<lambda>e. label e < l) (drop idx (edges n))"
    by (metis append_take_drop_id filter_append)
  also have "\<dots> = take idx (edges n)" using a b by (simp add: filter_id_conv filter_empty_conv)
  finally show ?thesis by (simp add: idx_def)
qed

lemma edge_search_drop:
  assumes "sorted_edges n"
  shows "drop (edge_search n l) (edges n) = filter (\<lambda>e. l \<le> label e) (edges n)"
proof -
  define idx where "idx = edge_search n l"
  have a: "\<forall>x \<in> set (take idx (edges n)). \<not> l \<le> label x"
  proof
    fix x assume "x \<in> set (take idx (edges n))"
    then obtain k where k: "k < idx" "k < length (edges n)" "x = edges n ! k"
      by (auto simp: in_set_conv_nth)
    then show "\<not> l \<le> label x"
      using edge_search_spec(2)[OF assms, where l=l and k=k] unfolding idx_def
      by (simp add: not_le)
  qed
  have b: "\<forall>x \<in> set (drop idx (edges n)). l \<le> label x"
  proof
    fix x assume "x \<in> set (drop idx (edges n))"
    then obtain k where k: "k < length (edges n) - idx" "x = edges n ! (idx + k)"
      by (auto simp: in_set_conv_nth)
    then have "l \<le> label (edges n ! (idx + k))"
      using edge_search_spec(3)[OF assms, where l=l and k="idx + k"] unfolding idx_def by simp
    then show "l \<le> label x" using k by simp
  qed
  have "filter (\<lambda>e. l \<le> label e) (edges n)
        = filter (\<lambda>e. l \<le> label e) (take idx (edges n)) @ filter (\<lambda>e. l \<le> label e) (drop idx (edges n))"
    by (metis append_take_drop_id filter_append)
  also have "\<dots> = drop idx (edges n)" using a b by (simp add: filter_id_conv filter_empty_conv)
  finally show ?thesis by (simp add: idx_def)
qed

lemma addEdge_shift:
  assumes "idx < length xs"
  shows "(take (idx + 1) (xs @ [e]) @
          copy_into (drop (idx + 1) (xs @ [e])) (take (length xs - idx) (drop idx (xs @ [e]))))[idx := e]
         = take idx xs @ e # drop idx xs"
proof -
  have 1: "take (length xs - idx) (drop idx (xs @ [e])) = drop idx xs"
    using assms by simp
  have 2: "copy_into (drop (idx + 1) (xs @ [e])) (drop idx xs) = drop idx xs"
    using assms by (simp add: copy_into_def)
  have 3: "take (idx + 1) (xs @ [e]) = take idx xs @ [xs ! idx]"
    using assms by (simp add: take_Suc_conv_app_nth)
  show ?thesis unfolding 1 2 3 using assms
    by (simp add: list_update_append)
qed

lemma delEdge_shift:
  assumes "idx < length xs"
  shows "(let es' = take idx xs @ copy_into (drop idx xs) (drop (idx + 1) xs)
          in take (length es' - 1) es') = take idx xs @ drop (idx + 1) xs"
proof -
  have "length xs - Suc 0 \<le> idx \<Longrightarrow> idx = length xs - Suc 0" using assms by simp
  then show ?thesis using assms by (auto simp: copy_into_def Let_def min_def)
qed

lemma edges_set_edges [simp]: "edges (set_edges n es) = es"
  and addr_set_edges [simp]: "addr (set_edges n es) = addr n"
  and leaf_set_edges [simp]: "leaf (set_edges n es) = leaf n"
  and prefix_set_edges [simp]: "prefix (set_edges n es) = prefix n"
  by (simp_all add: set_edges_def)

lemma search_loop_bounds:
  "i \<le> j \<Longrightarrow> i \<le> search_loop i j f \<and> search_loop i j f \<le> j"
proof (induction i j f rule: search_loop.induct)
  case (1 i j f)
  show ?case
  proof (cases "i < j")
    case False
    then have "search_loop i j f = i" by (subst search_loop.simps) simp
    then show ?thesis using "1.prems" by simp
  next
    case True
    define h where "h = (i + j) div 2"
    have hb: "i \<le> h" "h < j" using True by (auto simp: h_def)
    show ?thesis
    proof (cases "f h")
      case fh: True
      have eq: "search_loop i j f = search_loop i h f"
        using True fh by (subst search_loop.simps) (simp add: h_def Let_def)
      have "i \<le> search_loop i h f \<and> search_loop i h f \<le> h"
        apply (rule "1.IH"(2)[OF True h_def])
        subgoal using fh by simp
        subgoal by (rule hb(1))
        done
      then show ?thesis unfolding eq using hb(2) by simp
    next
      case nfh: False
      have eq: "search_loop i j f = search_loop (h + 1) j f"
        using True nfh by (subst search_loop.simps) (simp add: h_def Let_def)
      have hj: "h + 1 \<le> j" using hb(2) by simp
      have "h + 1 \<le> search_loop (h + 1) j f \<and> search_loop (h + 1) j f \<le> j"
        apply (rule "1.IH"(1)[OF True h_def])
        subgoal by (rule nfh)
        subgoal by (rule hj)
        done
      then show ?thesis unfolding eq using hb(1) by simp
    qed
  qed
qed

lemma edge_search_le: "edge_search n l \<le> length (edges n)"
  using search_loop_bounds[of 0 "length (edges n)"]
  by (simp add: edge_search_def sort_Search_def)

lemma edges_addEdge:
  "edges (addEdge n e) =
     take (edge_search n (label e)) (edges n) @ e # drop (edge_search n (label e)) (edges n)"
proof (cases "edge_search n (label e) < length (edges n)")
  case True
  then show ?thesis
    using addEdge_shift[OF True, of e] by (simp add: addEdge_def Let_def)
next
  case False
  then have "edge_search n (label e) = length (edges n)"
    using edge_search_le[of n "label e"] by simp
  then show ?thesis by (simp add: addEdge_def Let_def)
qed

lemma edges_addEdge_sorted:
  assumes "sorted_edges n"
  shows "edges (addEdge n e) =
     filter (\<lambda>x. label x < label e) (edges n) @ e # filter (\<lambda>x. label e \<le> label x) (edges n)"
  by (simp add: edges_addEdge edge_search_take[OF assms] edge_search_drop[OF assms])

lemma edges_delEdge:
  "edges (delEdge n l) =
     (if edge_search n l < length (edges n) \<and> label (edges n ! edge_search n l) = l
      then take (edge_search n l) (edges n) @ drop (edge_search n l + 1) (edges n)
      else edges n)"
proof (cases "edge_search n l < length (edges n) \<and> label (edges n ! edge_search n l) = l")
  case True
  then show ?thesis
    using delEdge_shift[of "edge_search n l" "edges n"]
    by (simp add: delEdge_def Let_def)
next
  case False
  then show ?thesis by (auto simp add: delEdge_def Let_def)
qed

lemma sorted_edges_label_inj:
  assumes "sorted_edges n" "i < length (edges n)" "j < length (edges n)"
    "label (edges n ! i) = label (edges n ! j)"
  shows "i = j"
proof (rule ccontr)
  assume "i \<noteq> j"
  then consider "i < j" | "j < i" by linarith
  then show False
  proof cases
    case 1
    then show ?thesis using sorted_edges_nth_less[OF assms(1) 1 assms(3)] assms(4) by simp
  next
    case 2
    then show ?thesis using sorted_edges_nth_less[OF assms(1) 2 assms(2)] assms(4) by simp
  qed
qed

text \<open>On a sorted edge list the search finds the edge with a given label, if there is one.\<close>

lemma edge_search_hit:
  assumes "sorted_edges n" "k < length (edges n)" "label (edges n ! k) = l"
  shows "edge_search n l = k"
proof -
  have "\<not> k < edge_search n l"
    using edge_search_spec(2)[OF assms(1), where l=l and k=k] assms(3) by auto
  then have le: "edge_search n l \<le> k" by simp
  then have lt: "edge_search n l < length (edges n)" using assms(2) by simp
  have "l \<le> label (edges n ! edge_search n l)"
    using edge_search_spec(3)[OF assms(1), where l=l and k="edge_search n l"] lt by simp
  moreover have "edge_search n l < k \<Longrightarrow> label (edges n ! edge_search n l) < l"
    using sorted_edges_nth_less[OF assms(1) _ assms(2)] assms(3) by simp
  ultimately show ?thesis using le by (cases "edge_search n l < k") auto
qed

lemma edge_search_miss:
  assumes "sorted_edges n" "l \<notin> label ` set (edges n)"
  shows "\<not> (edge_search n l < length (edges n) \<and> label (edges n ! edge_search n l) = l)"
  using assms(2) by (auto simp: in_set_conv_nth image_iff) (metis fst_conv nth_mem prod.collapse)

lemma edges_delEdge_sorted:
  assumes "sorted_edges n"
  shows "edges (delEdge n l) = filter (\<lambda>x. label x \<noteq> l) (edges n)"
proof (cases "edge_search n l < length (edges n) \<and> label (edges n ! edge_search n l) = l")
  case True
  define idx where "idx = edge_search n l"
  have idx: "idx < length (edges n)" "label (edges n ! idx) = l" using True by (simp_all add: idx_def)
  have t: "take idx (edges n) = filter (\<lambda>e. label e < l) (edges n)"
    unfolding idx_def by (rule edge_search_take[OF assms])
  have a: "\<forall>x \<in> set (take idx (edges n)). label x \<noteq> l"
    unfolding t by auto
  have b: "\<forall>x \<in> set (drop (idx + 1) (edges n)). label x \<noteq> l"
  proof
    fix x assume "x \<in> set (drop (idx + 1) (edges n))"
    then obtain k where k: "k < length (edges n) - (idx + 1)" "x = edges n ! (idx + 1 + k)"
      by (auto simp: in_set_conv_nth)
    have "label (edges n ! idx) < label (edges n ! (idx + 1 + k))"
      by (rule sorted_edges_nth_less[OF assms]) (use k in simp_all)
    then show "label x \<noteq> l" using k idx by simp
  qed
  have split: "edges n = take idx (edges n) @ edges n ! idx # drop (idx + 1) (edges n)"
    using idx(1) by (simp add: id_take_nth_drop)
  have "filter (\<lambda>x. label x \<noteq> l) (edges n) =
        filter (\<lambda>x. label x \<noteq> l) (take idx (edges n) @ edges n ! idx # drop (idx + 1) (edges n))"
    using split by simp
  also have "\<dots> = take idx (edges n) @ drop (idx + 1) (edges n)"
    using a b idx(2) by (simp add: filter_id_conv)
  finally show ?thesis using True by (simp add: edges_delEdge idx_def)
next
  case False
  have "\<forall>x \<in> set (edges n). label x \<noteq> l"
  proof
    fix x assume "x \<in> set (edges n)"
    then obtain k where k: "k < length (edges n)" "x = edges n ! k"
      by (auto simp: in_set_conv_nth)
    show "label x \<noteq> l"
    proof
      assume "label x = l"
      then have "edge_search n l = k" using edge_search_hit[OF assms k(1)] k(2) by simp
      then show False using False k \<open>label x = l\<close> by simp
    qed
  qed
  then have "filter (\<lambda>x. label x \<noteq> l) (edges n) = edges n"
    by (simp add: filter_id_conv)
  moreover have "edges (delEdge n l) = edges n"
    using False by (subst edges_delEdge) (simp only: if_False)
  ultimately show ?thesis by simp
qed

lemma delEdge_miss:
  assumes "sorted_edges n" "l \<notin> label ` set (edges n)"
  shows "delEdge n l = n"
proof -
  have "\<not> (edge_search n l < length (edges n) \<and> label (edges n ! edge_search n l) = l)"
    by (rule edge_search_miss[OF assms])
  then show ?thesis unfolding delEdge_def Let_def by (simp only: if_False)
qed

lemma sorted_edges_distinct:
  "sorted_edges n \<Longrightarrow> distinct (map label (edges n))"
  unfolding sorted_edges_def by (simp add: strict_sorted_iff)

lemma sorted_edges_addEdge:
  assumes "sorted_edges n" "label e \<notin> label ` set (edges n)"
  shows "sorted_edges (addEdge n e)"
proof -
  have s: "sorted_wrt (<) (map label (edges n))" using assms(1) by (simp only: sorted_edges_def)
  have 1: "sorted_wrt (<) (map label (filter (\<lambda>x. label x < label e) (edges n)))"
    using s by (simp add: sorted_wrt_map sorted_wrt_filter)
  have 2: "sorted_wrt (<) (map label (filter (\<lambda>x. label e \<le> label x) (edges n)))"
    using s by (simp add: sorted_wrt_map sorted_wrt_filter)
  have 3: "\<forall>x \<in> set (edges n). label e \<le> label x \<longrightarrow> label e < label x"
    using assms(2) by (metis image_eqI order_le_imp_less_or_eq)
  show ?thesis
    unfolding sorted_edges_def edges_addEdge_sorted[OF assms(1)]
    using 1 2 3 by (auto simp: sorted_wrt_append)
qed

lemma sorted_edges_delEdge:
  assumes "sorted_edges n"
  shows "sorted_edges (delEdge n l)"
  using assms unfolding sorted_edges_def edges_delEdge_sorted[OF assms]
  by (simp add: sorted_wrt_map sorted_wrt_filter)

lemma set_edges_addEdge: "set (edges (addEdge n e)) = insert e (set (edges n))"
proof -
  have "set (edges n) = set (take (edge_search n (label e)) (edges n)) \<union>
        set (drop (edge_search n (label e)) (edges n))"
    by (metis append_take_drop_id set_append)
  then show ?thesis by (auto simp: edges_addEdge)
qed

lemma replaceEdge_hit:
  assumes "sorted_edges n" "label e \<in> label ` set (edges n)"
  shows "replaceEdge n e =
     Inr (Node (addr n) (leaf n) (prefix n)
            (map (\<lambda>x. if label x = label e then (label x, node e) else x) (edges n)))"
proof -
  obtain k where k: "k < length (edges n)" "label (edges n ! k) = label e"
    using assms(2) by (auto simp: in_set_conv_nth image_iff)
  have idx: "edge_search n (label e) = k" by (rule edge_search_hit[OF assms(1) k])
  have "(edges n)[k := (label (edges n ! k), node e)]
        = map (\<lambda>x. if label x = label e then (label x, node e) else x) (edges n)"
  proof (rule nth_equalityI)
    show "length ((edges n)[k := (label (edges n ! k), node e)]) =
          length (map (\<lambda>x. if label x = label e then (label x, node e) else x) (edges n))"
      by simp
  next
    fix i assume "i < length ((edges n)[k := (label (edges n ! k), node e)])"
    then have i: "i < length (edges n)" by simp
    show "(edges n)[k := (label (edges n ! k), node e)] ! i =
          map (\<lambda>x. if label x = label e then (label x, node e) else x) (edges n) ! i"
    proof (cases "i = k")
      case True
      then show ?thesis using k by simp
    next
      case False
      then have "label (edges n ! i) \<noteq> label e"
        using sorted_edges_label_inj[OF assms(1) i k(1)] k(2) by auto
      then show ?thesis using False i by simp
    qed
  qed
  then show ?thesis using k idx by (simp add: replaceEdge_def Let_def set_edges_def)
qed

lemma replaceEdge_miss:
  assumes "sorted_edges n" "label e \<notin> label ` set (edges n)"
  shows "replaceEdge n e = Inl ReplacingMissingEdge"
proof -
  have "\<not> (edge_search n (label e) < length (edges n) \<and>
            label (edges n ! edge_search n (label e)) = label e)"
    by (rule edge_search_miss[OF assms])
  then show ?thesis unfolding replaceEdge_def Let_def by (simp only: if_False)
qed

text \<open>
  C8. On a node whose edge list is sorted strictly ascending by label, \<open>addEdge\<close> with a
  label that is not yet present gives an edge list that is again sorted strictly ascending,
  has distinct labels, and holds exactly the old edges and the new one; \<open>delEdge\<close> with
  any label gives a sorted edge list with distinct labels that is the old list without the
  edge of that label, and returns the node unchanged when no edge carries the label
  (\<open>delEdge\<close> has no failing branch: every index it reads is guarded).
\<close>

theorem addEdge_delEdge_keep_sorted:
  assumes "sorted_edges n"
  shows "(label e \<notin> label ` set (edges n) \<longrightarrow>
            sorted_edges (addEdge n e) \<and> distinct (map label (edges (addEdge n e))) \<and>
            set (edges (addEdge n e)) = insert e (set (edges n))) \<and>
         sorted_edges (delEdge n l) \<and> distinct (map label (edges (delEdge n l))) \<and>
         edges (delEdge n l) = filter (\<lambda>x. label x \<noteq> l) (edges n) \<and>
         (l \<notin> label ` set (edges n) \<longrightarrow> delEdge n l = n)"
proof (intro conjI impI)
  assume h: "label e \<notin> label ` set (edges n)"
  show "sorted_edges (addEdge n e)" by (rule sorted_edges_addEdge[OF assms h])
  then show "distinct (map label (edges (addEdge n e)))" by (rule sorted_edges_distinct)
  show "set (edges (addEdge n e)) = insert e (set (edges n))" by (rule set_edges_addEdge)
next
  show "sorted_edges (delEdge n l)" by (rule sorted_edges_delEdge[OF assms])
  then show "distinct (map label (edges (delEdge n l)))" by (rule sorted_edges_distinct)
  show "edges (delEdge n l) = filter (\<lambda>x. label x \<noteq> l) (edges n)"
    by (rule edges_delEdge_sorted[OF assms])
next
  assume "l \<notin> label ` set (edges n)"
  then show "delEdge n l = n" by (rule delEdge_miss[OF assms])
qed

theorem addEdge_delEdge_keep_sorted_witness:
  "sorted_edges (Node 0 None [] [(1, Node 1 None [1] []), (5, Node 2 None [5] [])] :: nat Node) \<and>
   (3::byte) \<notin> label ` set [(1, Node 1 None [1] []), (5, Node 2 None [5] [] :: nat Node)] \<and>
   sorted_edges (addEdge (Node 0 None [] [(1, Node 1 None [1] []), (5, Node 2 None [5] [])])
                  (3, Node 3 None [3] [] :: nat Node)) \<and>
   edges (delEdge (Node 0 None [] [(1, Node 1 None [1] []), (5, Node 2 None [5] [])] :: nat Node) 5)
     = [(1, Node 1 None [1] [])] \<and>
   delEdge (Node 0 None [] [(1, Node 1 None [1] []), (5, Node 2 None [5] [])] :: nat Node) 7
     = Node 0 None [] [(1, Node 1 None [1] []), (5, Node 2 None [5] [])]"
proof -
  let ?n = "Node 0 None [] [(1, Node 1 None [1] []), (5, Node 2 None [5] [])] :: nat Node"
  have s: "sorted_edges ?n" by (simp add: sorted_edges_def)
  show ?thesis
    using s addEdge_delEdge_keep_sorted[OF s, of "(3, Node 3 None [3] [])" 5]
      addEdge_delEdge_keep_sorted[OF s, of "(3, Node 3 None [3] [])" 7]
    by simp
qed

text \<open>
  C9. On a node with a sorted edge list, \<open>replaceEdge\<close> panics exactly when no edge
  carries the label of the given edge; otherwise it returns the node with the same address,
  leaf and prefix and the same edge list, except that the one edge with that label now
  points to the given child.
\<close>

theorem replaceEdge_panics_iff_missing:
  assumes "sorted_edges n"
  shows "(replaceEdge n e = Inl ReplacingMissingEdge \<longleftrightarrow> label e \<notin> label ` set (edges n)) \<and>
         (label e \<in> label ` set (edges n) \<longrightarrow>
            replaceEdge n e =
              Inr (Node (addr n) (leaf n) (prefix n)
                     (map (\<lambda>x. if label x = label e then (label x, node e) else x) (edges n))))"
proof (cases "label e \<in> label ` set (edges n)")
  case True
  then show ?thesis using replaceEdge_hit[OF assms True] by simp
next
  case False
  then show ?thesis using replaceEdge_miss[OF assms False] by simp
qed

theorem replaceEdge_panics_iff_missing_witness:
  "sorted_edges (Node 0 None [] [(1, Node 1 None [1] []), (5, Node 2 None [5] [])] :: nat Node) \<and>
   replaceEdge (Node 0 None [] [(1, Node 1 None [1] []), (5, Node 2 None [5] [])])
       (5, Node 9 None [5] [] :: nat Node)
     = Inr (Node 0 None [] [(1, Node 1 None [1] []), (5, Node 9 None [5] [])]) \<and>
   replaceEdge (Node 0 None [] [(1, Node 1 None [1] []), (5, Node 2 None [5] [])])
       (4, Node 9 None [4] [] :: nat Node)
     = Inl ReplacingMissingEdge"
proof -
  let ?n = "Node 0 None [] [(1, Node 1 None [1] []), (5, Node 2 None [5] [])] :: nat Node"
  have s: "sorted_edges ?n" by (simp add: sorted_edges_def)
  show ?thesis
    using s replaceEdge_panics_iff_missing[OF s, of "(5, Node 9 None [5] [])"]
      replaceEdge_panics_iff_missing[OF s, of "(4, Node 9 None [4] [])"]
    by simp
qed

section \<open>Keys below a node\<close>

lemma leaves_unfold:
  "leaves n = (case leaf n of None \<Rightarrow> [] | Some l \<Rightarrow> [(key l, val l)]) @
              concat (map (\<lambda>e. leaves (node e)) (edges n))"
  by (cases n) simp

lemma in_leaves_iff:
  "kv \<in> set (leaves n) \<longleftrightarrow>
     (\<exists>l. leaf n = Some l \<and> kv = (key l, val l)) \<or>
     (\<exists>e \<in> set (edges n). kv \<in> set (leaves (node e)))"
proof (cases "leaf n")
  case None
  then show ?thesis by (subst leaves_unfold) auto
next
  case (Some l)
  then show ?thesis by (subst leaves_unfold) auto
qed

lemma node_ok_leaf: "node_ok acc n \<Longrightarrow> leaf n = Some l \<Longrightarrow> key l = acc @ prefix n"
  by (subst (asm) node_ok.simps) simp

lemma node_ok_sorted: "node_ok acc n \<Longrightarrow> sorted_edges n"
  by (subst (asm) node_ok.simps) simp

lemma node_ok_child:
  "node_ok acc n \<Longrightarrow> e \<in> set (edges n) \<Longrightarrow>
     prefix (node e) \<noteq> [] \<and> hd (prefix (node e)) = label e \<and> node_ok (acc @ prefix n) (node e)"
  by (subst (asm) node_ok.simps) simp

lemma edge_size: "e \<in> set (edges n) \<Longrightarrow> size (node e) < size n"
  by (rule size_child) simp

text \<open>Every key below a node extends the path to the node by the node's prefix.\<close>

lemma keys_below:
  "node_ok acc n \<Longrightarrow> (k, v) \<in> set (leaves n) \<Longrightarrow> \<exists>r. k = acc @ prefix n @ r"
proof (induction n arbitrary: acc rule: measure_induct_rule[of size])
  case (less n)
  from less.prems(2) consider
    l where "leaf n = Some l" "(k, v) = (key l, val l)"
    | e where "e \<in> set (edges n)" "(k, v) \<in> set (leaves (node e))"
    by (auto simp: in_leaves_iff[of _ n])
  then show ?case
  proof cases
    case 1
    then show ?thesis using node_ok_leaf[OF less.prems(1)] by simp
  next
    case 2
    have "\<exists>r. k = (acc @ prefix n) @ prefix (node e) @ r"
      using less.IH[OF edge_size[OF 2(1)] _ 2(2)] node_ok_child[OF less.prems(1) 2(1)] by blast
    then show ?thesis by auto
  qed
qed

text \<open>Below an edge, every key continues the path to the parent with the label of the edge.\<close>

lemma keys_below_edge:
  assumes "node_ok acc n" "e \<in> set (edges n)" "(k, v) \<in> set (leaves (node e))"
  shows "\<exists>r. k = acc @ prefix n @ label e # r"
proof -
  have c: "prefix (node e) \<noteq> []" "hd (prefix (node e)) = label e"
    "node_ok (acc @ prefix n) (node e)"
    using node_ok_child[OF assms(1,2)] by auto
  obtain r where "k = (acc @ prefix n) @ prefix (node e) @ r"
    using keys_below[OF c(3) assms(3)] by blast
  moreover have "prefix (node e) = label e # tl (prefix (node e))"
    using c(1,2) by (cases "prefix (node e)") auto
  ultimately have "k = acc @ prefix n @ label e # (tl (prefix (node e)) @ r)"
    by (metis append.assoc append_Cons)
  then show ?thesis by blast
qed

section \<open>Exact lookup\<close>

lemma getEdge_Some:
  "snd (getEdge n b) = Some c \<Longrightarrow> (b, c) \<in> set (edges n)"
  by (auto simp: getEdge_def Let_def split: if_splits) (metis nth_mem prod.collapse)

lemma getEdge_None:
  assumes "sorted_edges n" "snd (getEdge n b) = None"
  shows "b \<notin> label ` set (edges n)"
proof
  assume "b \<in> label ` set (edges n)"
  then obtain k where k: "k < length (edges n)" "label (edges n ! k) = b"
    by (auto simp: in_set_conv_nth image_iff)
  have "edge_search n b = k" by (rule edge_search_hit[OF assms(1) k])
  then show False using assms(2) k by (simp add: getEdge_def Let_def)
qed

text \<open>In a sorted edge list a label names at most one edge.\<close>

lemma sorted_edges_unique:
  assumes "sorted_edges n" "e \<in> set (edges n)" "e' \<in> set (edges n)" "label e = label e'"
  shows "e = e'"
proof -
  obtain i j where ij: "i < length (edges n)" "edges n ! i = e" "j < length (edges n)" "edges n ! j = e'"
    using assms(2,3) by (auto simp: in_set_conv_nth)
  have "i = j" using sorted_edges_label_inj[OF assms(1) ij(1) ij(3)] ij assms(4) by simp
  then show ?thesis using ij by simp
qed

lemma GetWatch_loop_correct:
  "node_ok acc n \<Longrightarrow>
     snd (GetWatch_loop n search w) = Some v \<longleftrightarrow> (acc @ prefix n @ search, v) \<in> set (leaves n)"
proof (induction n arbitrary: acc search w rule: measure_induct_rule[of size])
  case (less n)
  note ok = less.prems
  have sorted: "sorted_edges n" by (rule node_ok_sorted[OF ok])
  show ?case
  proof (cases search)
    case Nil
    have below: "\<not> (\<exists>e \<in> set (edges n). (acc @ prefix n, v) \<in> set (leaves (node e)))"
    proof
      assume "\<exists>e \<in> set (edges n). (acc @ prefix n, v) \<in> set (leaves (node e))"
      then obtain e where e: "e \<in> set (edges n)" "(acc @ prefix n, v) \<in> set (leaves (node e))"
        by blast
      obtain r where "acc @ prefix n = acc @ prefix n @ label e # r"
        using keys_below_edge[OF ok e] by blast
      then show False by simp
    qed
    show ?thesis
    proof (cases "leaf n")
      case None
      then show ?thesis using Nil below
        by (subst GetWatch_loop.simps) (simp add: isLeaf_def in_leaves_iff[of _ n])
    next
      case (Some l)
      have "key l = acc @ prefix n" by (rule node_ok_leaf[OF ok Some])
      then show ?thesis using Nil below Some
        by (subst GetWatch_loop.simps) (auto simp: isLeaf_def in_leaves_iff[of _ n])
    qed
  next
    case (Cons b s')
    have notleaf: "\<not> (\<exists>l. leaf n = Some l \<and> (acc @ prefix n @ search, v) = (key l, val l))"
      using node_ok_leaf[OF ok] Cons by auto
    have other: "\<not> (acc @ prefix n @ search, v) \<in> set (leaves (node e))"
      if h: "e \<in> set (edges n)" "label e \<noteq> b" for e
    proof
      assume "(acc @ prefix n @ search, v) \<in> set (leaves (node e))"
      then obtain r where "acc @ prefix n @ search = acc @ prefix n @ label e # r"
        using keys_below_edge[OF ok h(1)] by blast
      then show False using Cons h(2) by simp
    qed
    show ?thesis
    proof (cases "snd (getEdge n b)")
      case None
      have "b \<notin> label ` set (edges n)" by (rule getEdge_None[OF sorted None])
      then have "\<forall>e \<in> set (edges n). label e \<noteq> b" by auto
      then have "(acc @ prefix n @ search, v) \<notin> set (leaves n)"
        using notleaf other by (auto simp: in_leaves_iff[of _ n])
      moreover have "snd (GetWatch_loop n search w) = None"
        using Cons None by (subst GetWatch_loop.simps) simp
      ultimately show ?thesis by simp
    next
      case (Some c)
      have mem: "(b, c) \<in> set (edges n)" by (rule getEdge_Some[OF Some])
      have cok: "node_ok (acc @ prefix n) c" "prefix c \<noteq> []"
        using node_ok_child[OF ok mem] by auto
      have only: "(acc @ prefix n @ search, v) \<in> set (leaves n) \<longleftrightarrow>
                  (acc @ prefix n @ search, v) \<in> set (leaves c)"
      proof
        assume "(acc @ prefix n @ search, v) \<in> set (leaves n)"
        then obtain e where e: "e \<in> set (edges n)" "(acc @ prefix n @ search, v) \<in> set (leaves (node e))"
          using notleaf by (auto simp: in_leaves_iff[of _ n])
        then have "label e = b" using other by blast
        then have "e = (b, c)" using sorted_edges_unique[OF sorted e(1) mem] by simp
        then show "(acc @ prefix n @ search, v) \<in> set (leaves c)" using e(2) by simp
      next
        assume "(acc @ prefix n @ search, v) \<in> set (leaves c)"
        then show "(acc @ prefix n @ search, v) \<in> set (leaves n)"
          using mem by (auto simp: in_leaves_iff[of _ n] intro!: bexI[of _ "(b, c)"])
      qed
      show ?thesis
      proof (cases "bytes_HasPrefix search (prefix c)")
        case True
        then have split: "search = prefix c @ drop (length (prefix c)) search"
          by (metis append_take_drop_id bytes_HasPrefix_def)
        have "snd (GetWatch_loop n search w)
              = snd (GetWatch_loop c (drop (length (prefix c)) search) (NodeCh (addr c)))"
          using Cons Some True by (subst GetWatch_loop.simps) simp
        also have "\<dots> = Some v \<longleftrightarrow>
              ((acc @ prefix n) @ prefix c @ drop (length (prefix c)) search, v) \<in> set (leaves c)"
          by (rule less.IH[OF size_child cok(1)]) (use mem in force)
        finally show ?thesis using only split by (metis append.assoc)
      next
        case False
        have "(acc @ prefix n @ search, v) \<notin> set (leaves c)"
        proof
          assume "(acc @ prefix n @ search, v) \<in> set (leaves c)"
          then obtain r where "acc @ prefix n @ search = (acc @ prefix n) @ prefix c @ r"
            using keys_below[OF cok(1)] by blast
          then have "search = prefix c @ r" by simp
          then show False using False by (simp add: bytes_HasPrefix_def)
        qed
        moreover have "snd (GetWatch_loop n search w) = None"
          using Cons Some False by (subst GetWatch_loop.simps) simp
        ultimately show ?thesis using only by simp
      qed
    qed
  qed
qed

text \<open>
  C1. In a well-formed tree, \<open>Get k\<close> returns \<open>(v, true)\<close> exactly when the tree holds a
  leaf with key \<open>k\<close> and value \<open>v\<close>, and \<open>(zero, false)\<close> exactly when no leaf has the
  key \<open>k\<close>: the descent never compares the stored key with \<open>k\<close>, the invariants make the
  node it ends at the one whose leaf has that key.
\<close>

theorem Get_returns_the_leaf_of_the_key:
  assumes "valid_tree t"
  shows "(Get t k = Some v \<longleftrightarrow> (k, v) \<in> set (leaves t)) \<and>
         (Get t k = None \<longleftrightarrow> k \<notin> fst ` set (leaves t))"
proof -
  have ok: "node_ok [] t" and p: "prefix t = []"
    using assms by (simp_all add: valid_tree_def)
  have iff: "Get t k = Some v \<longleftrightarrow> (k, v) \<in> set (leaves t)" for v
    using GetWatch_loop_correct[OF ok, of k "NodeCh (addr t)" v] p
    by (simp add: Get_def GetWatch_def)
  have "Get t k = None \<longleftrightarrow> (\<forall>v. Get t k \<noteq> Some v)" by auto
  also have "\<dots> \<longleftrightarrow> k \<notin> fst ` set (leaves t)" unfolding iff by force
  finally show ?thesis using iff by simp
qed

theorem Get_returns_the_leaf_of_the_key_witness:
  "valid_tree example_tree \<and>
   Get example_tree [102, 111, 111] = Some 3 \<and>
   ([102, 111, 111], 3) \<in> set (leaves example_tree) \<and>
   Get example_tree [102, 111] = None \<and>
   [102, 111] \<notin> fst ` set (leaves example_tree)"
proof -
  have v: "valid_tree example_tree" by code_simp
  have a: "([102, 111, 111], 3) \<in> set (leaves example_tree)" by code_simp
  have b: "[102, 111] \<notin> fst ` set (leaves example_tree)" by code_simp
  show ?thesis
    using v a b Get_returns_the_leaf_of_the_key[OF v, of "[102, 111, 111]" 3]
      Get_returns_the_leaf_of_the_key[OF v, of "[102, 111]" 3]
    by simp
qed

section \<open>Longest prefix\<close>

lemma HasPrefix_append: "bytes_HasPrefix (p @ r) p"
  by (simp add: bytes_HasPrefix_def)

lemma HasPrefix_iff: "bytes_HasPrefix s p \<longleftrightarrow> (\<exists>r. s = p @ r)"
  by (auto simp: bytes_HasPrefix_def) (metis append_take_drop_id)

lemma HasPrefix_cancel: "bytes_HasPrefix (a @ s) (a @ p) \<longleftrightarrow> bytes_HasPrefix s p"
  by (auto simp: HasPrefix_iff)

text \<open>A key below an edge that is a prefix of the search key pins down the edge.\<close>

lemma prefix_key_below_edge:
  assumes "node_ok acc n" "e \<in> set (edges n)" "(k', v) \<in> set (leaves (node e))"
    and "bytes_HasPrefix (acc @ prefix n @ search) k'"
  shows "search \<noteq> [] \<and> label e = hd search \<and> bytes_HasPrefix search (prefix (node e))
         \<and> length (acc @ prefix n) < length k'"
proof -
  have c: "prefix (node e) \<noteq> []" "hd (prefix (node e)) = label e"
    "node_ok (acc @ prefix n) (node e)"
    using node_ok_child[OF assms(1,2)] by auto
  obtain r where r: "k' = (acc @ prefix n) @ prefix (node e) @ r"
    using keys_below[OF c(3) assms(3)] by blast
  obtain q where "acc @ prefix n @ search = k' @ q"
    using assms(4) by (auto simp: HasPrefix_iff)
  then have s: "search = prefix (node e) @ r @ q" using r by simp
  then have "search \<noteq> []" using c(1) by simp
  moreover have "hd search = label e" using s c(1,2) by simp
  moreover have "bytes_HasPrefix search (prefix (node e))" using s by (simp add: HasPrefix_iff)
  moreover have "length (acc @ prefix n) < length k'" using r c(1) by simp
  ultimately show ?thesis by simp
qed

lemma LongestPrefix_loop_correct:
  "node_ok acc (n :: 'v Node) \<Longrightarrow>
     (prefixes_of (acc @ prefix n @ search) n = {} \<longrightarrow> LongestPrefix_loop n search lst = lst) \<and>
     (prefixes_of (acc @ prefix n @ search) n \<noteq> {} \<longrightarrow>
        (\<exists>l. LongestPrefix_loop n search lst = Some l \<and>
             (key l, val l) \<in> prefixes_of (acc @ prefix n @ search) n \<and>
             (\<forall>kv \<in> prefixes_of (acc @ prefix n @ search) n. length (fst kv) \<le> length (key l))))"
proof (induction n arbitrary: acc search lst rule: measure_induct_rule[of size])
  case (less n)
  note ok = less.prems
  define k where "k = acc @ prefix n @ search"
  define C where "C = (\<lambda>m :: 'v Node. prefixes_of k m)"
  define last' where "last' = (if isLeaf n then leaf n else lst)"
  have sorted: "sorted_edges n" by (rule node_ok_sorted[OF ok])
  have own: "(key l, val l) \<in> C n \<and> length (key l) = length (acc @ prefix n)"
    if "leaf n = Some l" for l
    using node_ok_leaf[OF ok that] that
    by (auto simp: C_def prefixes_of_def k_def in_leaves_iff[of _ n] HasPrefix_iff)
  have Cn: "kv \<in> C n \<longleftrightarrow>
        (\<exists>l. leaf n = Some l \<and> kv = (key l, val l)) \<or> (\<exists>e \<in> set (edges n). kv \<in> C (node e))" for kv
  proof -
    have "kv \<in> C n \<longleftrightarrow> kv \<in> set (leaves n) \<and> bytes_HasPrefix k (fst kv)"
      by (simp add: C_def prefixes_of_def)
    also have "\<dots> \<longleftrightarrow> (\<exists>l. leaf n = Some l \<and> kv = (key l, val l) \<and> bytes_HasPrefix k (fst kv))
        \<or> (\<exists>e \<in> set (edges n). kv \<in> set (leaves (node e)) \<and> bytes_HasPrefix k (fst kv))"
      by (subst in_leaves_iff[of _ n]) blast
    also have "\<dots> \<longleftrightarrow> (\<exists>l. leaf n = Some l \<and> kv = (key l, val l))
        \<or> (\<exists>e \<in> set (edges n). kv \<in> C (node e))"
      using own by (auto simp: C_def prefixes_of_def)
    finally show ?thesis .
  qed
  have below: "search \<noteq> [] \<and> label e = hd search \<and> bytes_HasPrefix search (prefix (node e))
         \<and> length (acc @ prefix n) < length (fst kv)"
    if "e \<in> set (edges n)" "kv \<in> C (node e)" for e kv
    using prefix_key_below_edge[OF ok that(1), of "fst kv" "snd kv" search] that(2)
    by (simp add: C_def prefixes_of_def k_def)
  have goal_eq: "?case \<longleftrightarrow>
     (C n = {} \<longrightarrow> LongestPrefix_loop n search lst = lst) \<and>
     (C n \<noteq> {} \<longrightarrow> (\<exists>l. LongestPrefix_loop n search lst = Some l \<and> (key l, val l) \<in> C n \<and>
                   (\<forall>kv \<in> C n. length (fst kv) \<le> length (key l))))"
    unfolding C_def k_def by (rule refl)
  have final: ?case if none: "\<forall>e \<in> set (edges n). C (node e) = {}"
    and r: "LongestPrefix_loop n search lst = last'"
  proof (cases "leaf n")
    case None
    then have "C n = {}" using none Cn by auto
    then show ?thesis unfolding goal_eq using r None by (simp add: last'_def isLeaf_def)
  next
    case (Some l)
    have "C n = {(key l, val l)}" using none Cn Some by auto
    then show ?thesis unfolding goal_eq using r Some by (simp add: last'_def isLeaf_def)
  qed
  show ?case
  proof (cases search)
    case Nil
    have "\<forall>e \<in> set (edges n). C (node e) = {}" using below Nil by blast
    moreover have "LongestPrefix_loop n search lst = last'"
      using Nil by (subst LongestPrefix_loop.simps) (simp add: last'_def Let_def)
    ultimately show ?thesis by (rule final)
  next
    case (Cons b s')
    show ?thesis
    proof (cases "snd (getEdge n b)")
      case None
      have "b \<notin> label ` set (edges n)" by (rule getEdge_None[OF sorted None])
      then have "\<forall>e \<in> set (edges n). C (node e) = {}" using below Cons by fastforce
      moreover have "LongestPrefix_loop n search lst = last'"
        using Cons None by (subst LongestPrefix_loop.simps) (simp add: last'_def Let_def)
      ultimately show ?thesis by (rule final)
    next
      case (Some c)
      have mem: "(b, c) \<in> set (edges n)" by (rule getEdge_Some[OF Some])
      have cok: "node_ok (acc @ prefix n) c" "prefix c \<noteq> []"
        using node_ok_child[OF ok mem] by auto
      have others: "C (node e) = {}" if h: "e \<in> set (edges n)" "e \<noteq> (b, c)" for e
      proof -
        have "label e \<noteq> b" using sorted_edges_unique[OF sorted h(1) mem] h(2) by auto
        then show ?thesis using below[OF h(1)] Cons by fastforce
      qed
      show ?thesis
      proof (cases "bytes_HasPrefix search (prefix c)")
        case False
        have "C c = {}" using below[OF mem] False by fastforce
        then have "\<forall>e \<in> set (edges n). C (node e) = {}" using others by force
        moreover have "LongestPrefix_loop n search lst = last'"
          using Cons Some False by (subst LongestPrefix_loop.simps) (simp add: last'_def Let_def)
        ultimately show ?thesis by (rule final)
      next
        case True
        define s2 where "s2 = drop (length (prefix c)) search"
        have split: "search = prefix c @ s2"
          using True by (metis append_take_drop_id bytes_HasPrefix_def s2_def)
        have keq: "(acc @ prefix n) @ prefix c @ s2 = k" using split by (simp add: k_def)
        have rec: "LongestPrefix_loop n search lst = LongestPrefix_loop c s2 last'"
          using Cons Some True
          by (subst LongestPrefix_loop.simps) (simp add: last'_def Let_def s2_def)
        have szc: "size c < size n" using size_child[of c n] mem by force
        have IH: "(C c = {} \<longrightarrow> LongestPrefix_loop c s2 last' = last') \<and>
           (C c \<noteq> {} \<longrightarrow> (\<exists>l. LongestPrefix_loop c s2 last' = Some l \<and> (key l, val l) \<in> C c \<and>
                   (\<forall>kv \<in> C c. length (fst kv) \<le> length (key l))))"
          using less.IH[OF szc cok(1), of s2 last', unfolded keq] unfolding C_def by simp
        have Cn': "kv \<in> C n \<longleftrightarrow> (\<exists>l. leaf n = Some l \<and> kv = (key l, val l)) \<or> kv \<in> C c" for kv
          unfolding Cn using others mem by force
        show ?thesis
        proof (cases "C c = {}")
          case True
          then have "\<forall>e \<in> set (edges n). C (node e) = {}" using others by force
          moreover have "LongestPrefix_loop n search lst = last'"
            using IH True rec by auto
          ultimately show ?thesis by (rule final)
        next
          case False
          then obtain l where l: "LongestPrefix_loop c s2 last' = Some l"
            "(key l, val l) \<in> C c" "\<forall>kv \<in> C c. length (fst kv) \<le> length (key l)"
            using IH by auto
          have long: "length (acc @ prefix n) < length (key l)"
            using below[OF mem, of "(key l, val l)"] l(2) by simp
          have inC: "(key l, val l) \<in> C n" using l(2) Cn' by auto
          have maxi: "\<forall>kv \<in> C n. length (fst kv) \<le> length (key l)"
          proof
            fix kv assume "kv \<in> C n"
            then consider l' where "leaf n = Some l'" "kv = (key l', val l')" | "kv \<in> C c"
              using Cn' by blast
            then show "length (fst kv) \<le> length (key l)"
            proof cases
              case 1
              then show ?thesis using own[OF 1(1)] long by simp
            next
              case 2
              then show ?thesis using l(3) by blast
            qed
          qed
          have "C n \<noteq> {}" using inC by auto
          then show ?thesis unfolding goal_eq using rec l(1) inC maxi by auto
        qed
      qed
    qed
  qed
qed


text \<open>
  C6. In a well-formed tree, \<open>LongestPrefix k\<close> returns \<open>(nil, zero, false)\<close> exactly
  when no key of the tree is a prefix of \<open>k\<close>; otherwise it returns a key of the tree with
  its value, that key is a prefix of \<open>k\<close>, and no key of the tree that is a prefix of
  \<open>k\<close> is longer.
\<close>

theorem LongestPrefix_returns_the_longest_prefix_key:
  assumes "valid_tree t"
  shows "(LongestPrefix t k = None \<longleftrightarrow> (\<forall>kv \<in> set (leaves t). \<not> bytes_HasPrefix k (fst kv))) \<and>
         (case LongestPrefix t k of
            None \<Rightarrow> True
          | Some (k', v) \<Rightarrow>
              (k', v) \<in> set (leaves t) \<and> bytes_HasPrefix k k' \<and>
              (\<forall>kv \<in> set (leaves t). bytes_HasPrefix k (fst kv) \<longrightarrow> length (fst kv) \<le> length k'))"
proof -
  have ok: "node_ok [] t" and p: "prefix t = []"
    using assms by (simp_all add: valid_tree_def)
  note L = LongestPrefix_loop_correct[OF ok, of k None, unfolded p, simplified]
  have e: "prefixes_of k t = {} \<longleftrightarrow> (\<forall>kv \<in> set (leaves t). \<not> bytes_HasPrefix k (fst kv))"
    by (auto simp: prefixes_of_def)
  show ?thesis
  proof (cases "prefixes_of k t = {}")
    case True
    then have "LongestPrefix t k = None" using L by (simp add: LongestPrefix_def)
    then show ?thesis using True e by simp
  next
    case False
    then obtain l where l: "LongestPrefix_loop t k None = Some l"
      "(key l, val l) \<in> prefixes_of k t"
      "\<forall>kv \<in> prefixes_of k t. length (fst kv) \<le> length (key l)"
      using L by blast
    have r: "LongestPrefix t k = Some (key l, val l)" using l(1) by (simp add: LongestPrefix_def)
    have "(key l, val l) \<in> set (leaves t)" "bytes_HasPrefix k (key l)"
      using l(2) by (simp_all add: prefixes_of_def)
    moreover have "\<forall>kv \<in> set (leaves t). bytes_HasPrefix k (fst kv) \<longrightarrow> length (fst kv) \<le> length (key l)"
      using l(3) by (auto simp: prefixes_of_def)
    ultimately show ?thesis using r False e by simp
  qed
qed

theorem LongestPrefix_returns_the_longest_prefix_key_witness:
  "valid_tree example_tree \<and>
   LongestPrefix example_tree [102, 111, 111, 122, 97, 112] = Some ([102, 111, 111], 3) \<and>
   LongestPrefix example_tree [120] = None"
proof -
  have v: "valid_tree example_tree" by code_simp
  have r: "LongestPrefix example_tree [102, 111, 111, 122, 97, 112] = Some ([102, 111, 111], 3)"
    by code_simp
  have n: "\<forall>kv \<in> set (leaves example_tree). \<not> bytes_HasPrefix [120] (fst kv)"
    by code_simp
  show ?thesis
    using v r n LongestPrefix_returns_the_longest_prefix_key[OF v, of "[102, 111, 111, 122, 97, 112]"]
      LongestPrefix_returns_the_longest_prefix_key[OF v, of "[120]"]
    by simp
qed

section \<open>Order of the keys\<close>

lemma append_less_cancel: "(a @ x :: byte list) < a @ y \<longleftrightarrow> x < y"
  by (induction a) simp_all

lemma less_append_Cons: "(a :: byte list) < a @ b # r"
  using append_less_cancel[of a "[]" "b # r"] by simp

lemma Cons_less_append: "b < b' \<Longrightarrow> (a @ b # r :: byte list) < a @ b' # r'"
  by (simp add: append_less_cancel)

lemma sorted_wrt_concat:
  "sorted_wrt R (concat xss) \<longleftrightarrow>
     (\<forall>xs \<in> set xss. sorted_wrt R xs) \<and>
     sorted_wrt (\<lambda>xs ys. \<forall>x \<in> set xs. \<forall>y \<in> set ys. R x y) xss"
  by (induction xss) (auto simp: sorted_wrt_append)

text \<open>The keys below two edges of a node compare as the labels of the edges do.\<close>

lemma keys_of_edges_less:
  assumes "node_ok acc n" "e \<in> set (edges n)" "e' \<in> set (edges n)" "label e < label e'"
    and "kv \<in> set (leaves (node e))" "kv' \<in> set (leaves (node e'))"
  shows "fst kv < fst kv'"
proof -
  obtain r where r: "fst kv = acc @ prefix n @ label e # r"
    using keys_below_edge[OF assms(1,2), of "fst kv" "snd kv"] assms(5) by auto
  obtain r' where r': "fst kv' = acc @ prefix n @ label e' # r'"
    using keys_below_edge[OF assms(1,3), of "fst kv'" "snd kv'"] assms(6) by auto
  show ?thesis unfolding r r'
    using Cons_less_append[OF assms(4), of "acc @ prefix n" r r'] by simp
qed

lemma sorted_wrt_map_edges:
  assumes "sorted_wrt (<) (map label es)"
    and "\<And>e e'. e \<in> set es \<Longrightarrow> e' \<in> set es \<Longrightarrow> label e < label e' \<Longrightarrow> R (f e) (f e')"
  shows "sorted_wrt R (map f es)"
  using assms by (induction es) (auto simp: sorted_wrt_map)

lemma sorted_leaves:
  "node_ok acc n \<Longrightarrow> sorted_wrt (<) (map fst (leaves n))"
proof (induction n arbitrary: acc rule: measure_induct_rule[of size])
  case (less n)
  note ok = less.prems
  have sorted: "sorted_wrt (<) (map label (edges n))"
    using node_ok_sorted[OF ok] by (simp add: sorted_edges_def)
  have each: "\<forall>xs \<in> set (map (\<lambda>e. leaves (node e)) (edges n)). sorted_wrt (<) (map fst xs)"
  proof
    fix xs assume "xs \<in> set (map (\<lambda>e. leaves (node e)) (edges n))"
    then obtain e where e: "e \<in> set (edges n)" "xs = leaves (node e)" by auto
    have "node_ok (acc @ prefix n) (node e)" using node_ok_child[OF ok e(1)] by simp
    then show "sorted_wrt (<) (map fst xs)"
      unfolding e(2) by (rule less.IH[OF edge_size[OF e(1)]])
  qed
  have across: "sorted_wrt (\<lambda>xs ys. \<forall>x \<in> set xs. \<forall>y \<in> set ys. fst x < fst y)
                  (map (\<lambda>e. leaves (node e)) (edges n))"
    by (rule sorted_wrt_map_edges[OF sorted]) (use keys_of_edges_less[OF ok] in blast)
  have below: "sorted_wrt (\<lambda>x y. fst x < fst y) (concat (map (\<lambda>e. leaves (node e)) (edges n)))"
    unfolding sorted_wrt_concat using each across by (simp add: sorted_wrt_map)
  have own: "key l < fst kv"
    if h: "leaf n = Some l" "kv \<in> set (concat (map (\<lambda>e. leaves (node e)) (edges n)))" for l kv
  proof -
    obtain e where e: "e \<in> set (edges n)" "kv \<in> set (leaves (node e))" using h(2) by auto
    obtain r where "fst kv = acc @ prefix n @ label e # r"
      using keys_below_edge[OF ok e(1), of "fst kv" "snd kv"] e(2) by auto
    then show ?thesis
      using node_ok_leaf[OF ok h(1)] less_append_Cons[of "acc @ prefix n" "label e" r] by simp
  qed
  show ?case
  proof (cases "leaf n")
    case None
    then show ?thesis using below by (subst leaves_unfold) (simp add: sorted_wrt_map)
  next
    case (Some l)
    then show ?thesis using below own[OF Some]
      by (subst leaves_unfold) (simp add: sorted_wrt_map)
  qed
qed

section \<open>The walks\<close>

lemma visit_all_simps [simp]:
  "visit_all fn s [] = s"
  "visit_all fn s (kv # kvs) = visit_all fn (snd (fn (fst kv) (snd kv) s)) kvs"
  "visit_all fn s (xs @ ys) = visit_all fn (visit_all fn s xs) ys"
  by (simp_all add: visit_all_def)

lemma visit_all_record: "visit_all record_visit s kvs = s @ kvs"
  by (induction kvs arbitrary: s) (simp_all add: record_visit_def)

lemma recursiveWalk_never_aborting:
  "(\<forall>k v s. \<not> fst (fn k v s)) \<Longrightarrow>
     recursiveWalk n fn s = (False, visit_all fn s (leaves n))"
  "(\<forall>k v s. \<not> fst (fn k v s)) \<Longrightarrow>
     recursiveWalk_edges es fn s = (False, visit_all fn s (concat (map (\<lambda>e. leaves (node e)) es)))"
proof (induction n fn s and es fn s rule: recursiveWalk_recursiveWalk_edges.induct)
  case (1 a lf p es fn s)
  show ?case
  proof (cases lf)
    case None
    then show ?thesis using 1(1)[OF None 1(3)] by simp
  next
    case (Some l)
    obtain b s' where f: "fn (key l) (val l) s = (b, s')" by (cases "fn (key l) (val l) s")
    have "\<not> fst (fn (key l) (val l) s)" using 1(3) by blast
    then have b: "b = False" using f by simp
    show ?thesis using Some f b 1(2)[OF Some f[unfolded b, symmetric] refl 1(3)] by simp
  qed
next
  case (2 fn s)
  then show ?case by simp
next
  case (3 e es fn s)
  obtain b s' where f: "recursiveWalk (node e) fn s = (b, s')"
    by (cases "recursiveWalk (node e) fn s")
  then have b: "b = False" "s' = visit_all fn s (leaves (node e))" using 3(1)[OF 3(3)] by simp_all
  show ?case using f b 3(2)[OF f[unfolded b(1), symmetric] refl 3(3)] by simp
qed

section \<open>The forward iterator\<close>

lemma stack_out_simps [simp]:
  "stack_out [] = []"
  "stack_out (sl # st) = concat (map leaves sl) @ stack_out st"
  by (simp_all add: stack_out_def)

lemma leaves_children:
  "leaves n = (case leaf n of None \<Rightarrow> [] | Some l \<Rightarrow> [(key l, val l)]) @
              concat (map leaves (children n))"
  by (subst leaves_unfold) (simp add: children_def comp_def)

text \<open>The first \<open>Next\<close> on a fresh iterator pushes the start node.\<close>

lemma Next_fresh:
  "Next \<lparr>it_node = Some n, stack = None\<rparr> = Next \<lparr>it_node = Some n, stack = Some [[n]]\<rparr>"
  by (simp add: Next_def push_def)

lemma Next_loop_correct:
  "\<forall>sl \<in> set st. sl \<noteq> [] \<Longrightarrow>
     (case Next_loop st of
        Inl e \<Rightarrow> False
      | Inr (None, st') \<Rightarrow> stack_out st = [] \<and> st' = []
      | Inr (Some kv, st') \<Rightarrow> stack_out st = kv # stack_out st' \<and> (\<forall>sl \<in> set st'. sl \<noteq> []))"
proof (induction st rule: Next_loop.induct)
  case 1
  show ?case by (simp add: Next_loop.simps(1))
next
  case (2 lst rest)
  obtain elem others where lst: "lst = elem # others" using "2.prems" by (cases lst) auto
  define st1 where "st1 = (if length lst > 1 then others # rest else rest)"
  define st2 where "st2 = (if length (children elem) > 0 then children elem # st1 else st1)"
  have ne1: "\<forall>sl \<in> set st1. sl \<noteq> []" using "2.prems" lst by (auto simp: st1_def)
  have ne2: "\<forall>sl \<in> set st2. sl \<noteq> []" using ne1 by (auto simp: st2_def)
  have o1: "stack_out st1 = concat (map leaves others) @ stack_out rest"
    using lst by (cases others) (auto simp: st1_def)
  have o2: "stack_out st2 = concat (map leaves (children elem)) @ stack_out st1"
    by (auto simp: st2_def)
  have out: "stack_out (lst # rest) =
      (case leaf elem of None \<Rightarrow> [] | Some l \<Rightarrow> [(key l, val l)]) @ stack_out st2"
    using lst o1 o2 by (simp add: leaves_children[of elem])
  have step: "Next_loop (lst # rest) =
      (case leaf elem of Some l \<Rightarrow> Inr (Some (key l, val l), st2) | None \<Rightarrow> Next_loop st2)"
    unfolding st2_def st1_def lst
    by (subst Next_loop.simps(2)) (simp only: list.case Let_def)
  show ?case
  proof (cases "leaf elem")
    case None
    have e1: "Next_loop (lst # rest) = Next_loop st2"
      unfolding step using None by simp
    have e2: "stack_out (lst # rest) = stack_out st2" using out None by simp
    show ?thesis unfolding e1 e2 by (rule "2.IH"[OF lst st1_def st2_def None ne2])
  next
    case (Some l)
    have "Next_loop (lst # rest) = Inr (Some (key l, val l), st2)"
      unfolding step using Some by simp
    then show ?thesis using out Some ne2 by simp
  qed
qed


lemma drain_stack:
  "\<forall>sl \<in> set st. sl \<noteq> [] \<Longrightarrow> drain \<lparr>it_node = x, stack = Some st\<rparr> = Inr (stack_out st)"
proof (induction "sum_list (map (size_list size) st)" arbitrary: st rule: less_induct)
  case less
  note N = Next_loop_correct[OF less.prems]
  show ?case
  proof (cases "Next_loop st")
    case (Inl e)
    then show ?thesis using N by simp
  next
    case (Inr r)
    obtain res st' where r: "r = (res, st')" by (cases r)
    show ?thesis
    proof (cases res)
      case None
      then show ?thesis using N Inr r
        by (subst drain.simps) (simp add: Next_def)
    next
      case (Some kv)
      have d: "sum_list (map (size_list size) st') < sum_list (map (size_list size) st)"
        using Next_loop_held[of st kv st'] Inr r Some by simp
      have ne: "\<forall>sl \<in> set st'. sl \<noteq> []" and o: "stack_out st = kv # stack_out st'"
        using N Inr r Some by simp_all
      have "drain \<lparr>it_node = x, stack = Some st'\<rparr> = Inr (stack_out st')"
        by (rule less.hyps[OF d ne])
      then show ?thesis using Inr r Some o
        by (subst drain.simps) (simp add: Next_def)
    qed
  qed
qed


lemma drain_Iterator: "drain (Iterator n) = Inr (leaves n)"
proof -
  have "drain (Iterator n) = drain \<lparr>it_node = Some n, stack = Some [[n]]\<rparr>"
    unfolding Iterator_def
    by (subst drain.simps, subst (2) drain.simps) (simp add: Next_fresh)
  also have "\<dots> = Inr (stack_out [[n]])" by (rule drain_stack) simp
  finally show ?thesis by simp
qed

text \<open>
  C4. In a well-formed tree, a fresh iterator drained with \<open>Next\<close> returns the leaves of
  the tree, each once, in the order \<open>leaves\<close> lists them; \<open>Walk\<close> with a callback that
  never aborts calls it on the same pairs in the same order; and the keys in that order
  are strictly ascending in the unsigned lexicographic order (so no key comes twice).
\<close>

theorem Next_and_Walk_visit_the_leaves_ascending:
  assumes "valid_tree t"
  shows "drain (Iterator t) = Inr (leaves t) \<and>
         ((\<forall>k v s. \<not> fst (fn k v s)) \<longrightarrow> Walk t fn s = visit_all fn s (leaves t)) \<and>
         Walk t record_visit [] = leaves t \<and>
         sorted_wrt (<) (map fst (leaves t)) \<and> distinct (map fst (leaves t))"
proof -
  have ok: "node_ok [] t" using assms by (simp add: valid_tree_def)
  have s: "sorted_wrt (<) (map fst (leaves t))" by (rule sorted_leaves[OF ok])
  have r: "\<forall>k v s. \<not> fst (record_visit k v (s :: (byte list \<times> 'a) list))"
    by (simp add: record_visit_def)
  have "Walk t record_visit [] = leaves t"
    using recursiveWalk_never_aborting(1)[OF r, of t "[]"]
    by (simp add: Walk_def visit_all_record)
  moreover have "(\<forall>k v s. \<not> fst (fn k v s)) \<longrightarrow> Walk t fn s = visit_all fn s (leaves t)"
    using recursiveWalk_never_aborting(1)[of fn t s] by (simp add: Walk_def)
  moreover have "distinct (map fst (leaves t))" using s by (simp add: strict_sorted_iff)
  ultimately show ?thesis using s drain_Iterator[of t] by simp
qed

theorem Next_and_Walk_visit_the_leaves_ascending_witness:
  "valid_tree example_tree \<and>
   drain (Iterator example_tree) =
     Inr [([97], 1), ([97, 98], 2), ([102, 111, 111], 3),
          ([102, 111, 111, 98, 97, 114], 4), ([102, 111, 111, 122, 105, 112], 5)] \<and>
   Walk example_tree record_visit [] =
     [([97], 1), ([97, 98], 2), ([102, 111, 111], 3),
      ([102, 111, 111, 98, 97, 114], 4), ([102, 111, 111, 122, 105, 112], 5)]"
proof -
  have v: "valid_tree example_tree" by code_simp
  have l: "leaves example_tree =
     [([97], 1), ([97, 98], 2), ([102, 111, 111], 3),
      ([102, 111, 111, 98, 97, 114], 4), ([102, 111, 111, 122, 105, 112], 5)]"
    by code_simp
  show ?thesis
    using v Next_and_Walk_visit_the_leaves_ascending[OF v, of record_visit "[]"]
    unfolding l by simp
qed

section \<open>Minimum and maximum\<close>

lemma no_dead_ends_child:
  "no_dead_ends n \<Longrightarrow> e \<in> set (edges n) \<Longrightarrow>
     (edges (node e) = [] \<longrightarrow> leaf (node e) \<noteq> None) \<and> no_dead_ends (node e)"
  by (subst (asm) no_dead_ends.simps) simp

text \<open>Without dead ends, a node with an edge or a leaf has a leaf at or below it.\<close>

lemma leaves_nonempty:
  "no_dead_ends n \<Longrightarrow> edges n \<noteq> [] \<or> leaf n \<noteq> None \<Longrightarrow> leaves n \<noteq> []"
proof (induction n rule: measure_induct_rule[of size])
  case (less n)
  show ?case
  proof (cases "leaf n")
    case (Some l)
    then show ?thesis by (subst leaves_unfold) simp
  next
    case None
    then obtain e es where es: "edges n = e # es" using less.prems(2) by (cases "edges n") auto
    then have e: "e \<in> set (edges n)" by simp
    have "leaves (node e) \<noteq> []"
      using less.IH[OF edge_size[OF e]] no_dead_ends_child[OF less.prems(1) e] by blast
    then show ?thesis using es by (subst leaves_unfold) simp
  qed
qed

lemma Minimum_first_leaf:
  "no_dead_ends n \<Longrightarrow> Minimum n = (if leaves n = [] then None else Some (hd (leaves n)))"
proof (induction n rule: measure_induct_rule[of size])
  case (less n)
  show ?case
  proof (cases "leaf n")
    case (Some l)
    then show ?thesis
      by (subst Minimum.simps, subst leaves_unfold, subst (2) leaves_unfold) (simp add: isLeaf_def)
  next
    case None
    show ?thesis
    proof (cases "edges n")
      case Nil
      then show ?thesis using None
        by (subst Minimum.simps, subst leaves_unfold) (simp add: isLeaf_def)
    next
      case (Cons e es)
      then have e: "e \<in> set (edges n)" by simp
      have nd: "no_dead_ends (node e)" "edges (node e) \<noteq> [] \<or> leaf (node e) \<noteq> None"
        using no_dead_ends_child[OF less.prems e] by auto
      have ne: "leaves (node e) \<noteq> []" by (rule leaves_nonempty[OF nd])
      have l: "leaves n = leaves (node e) @ concat (map (\<lambda>e. leaves (node e)) es)"
        using None Cons by (subst leaves_unfold) simp
      have "Minimum n = Minimum (node e)"
        using None Cons by (subst Minimum.simps) (simp add: isLeaf_def)
      also have "\<dots> = Some (hd (leaves (node e)))"
        using less.IH[OF edge_size[OF e] nd(1)] ne by simp
      finally show ?thesis using ne l by simp
    qed
  qed
qed

lemma Maximum_last_leaf:
  "no_dead_ends n \<Longrightarrow> Maximum n = (if leaves n = [] then None else Some (last (leaves n)))"
proof (induction n rule: measure_induct_rule[of size])
  case (less n)
  show ?case
  proof (cases "edges n = []")
    case True
    show ?thesis
    proof (cases "leaf n")
      case None
      then show ?thesis using True
        by (subst Maximum.simps, subst leaves_unfold) (simp add: isLeaf_def)
    next
      case (Some l)
      then show ?thesis using True
        by (subst Maximum.simps, subst leaves_unfold, subst (2) leaves_unfold) (simp add: isLeaf_def)
    qed
  next
    case False
    define e where "e = edges n ! (length (edges n) - 1)"
    have el: "e = last (edges n)" using False by (simp add: e_def last_conv_nth)
    then have e: "e \<in> set (edges n)" using False by simp
    have nd: "no_dead_ends (node e)" "edges (node e) \<noteq> [] \<or> leaf (node e) \<noteq> None"
      using no_dead_ends_child[OF less.prems e] by auto
    have ne: "leaves (node e) \<noteq> []" by (rule leaves_nonempty[OF nd])
    have "edges n = butlast (edges n) @ [e]" using False el by simp
    then have "concat (map (\<lambda>e. leaves (node e)) (edges n))
          = concat (map (\<lambda>e. leaves (node e)) (butlast (edges n))) @ leaves (node e)"
      by (metis (no_types, lifting) append_Nil2 concat.simps(1,2) concat_append list.simps(8,9) map_append)
    then have l: "last (leaves n) = last (leaves (node e))" "leaves n \<noteq> []"
      using ne by (subst leaves_unfold, simp)+
    have "Maximum n = Maximum (node e)"
      using False by (subst Maximum.simps) (simp add: e_def Let_def)
    also have "\<dots> = Some (last (leaves (node e)))"
      using less.IH[OF edge_size[OF e] nd(1)] ne by simp
    finally show ?thesis using l by simp
  qed
qed

text \<open>Whatever the shape of the tree, a result is one of its leaves.\<close>

lemma Minimum_in_leaves: "Minimum n = Some kv \<Longrightarrow> kv \<in> set (leaves n)"
proof (induction n rule: measure_induct_rule[of size])
  case (less n)
  show ?case
  proof (cases "leaf n")
    case (Some l)
    then have "Minimum n = Some (key l, val l)"
      by (subst Minimum.simps) (simp add: isLeaf_def)
    then show ?thesis using less.prems Some by (auto simp: in_leaves_iff[of _ n])
  next
    case None
    show ?thesis
    proof (cases "edges n")
      case Nil
      then have "Minimum n = None" using None by (subst Minimum.simps) (simp add: isLeaf_def)
      then show ?thesis using less.prems by simp
    next
      case (Cons e es)
      then have e: "e \<in> set (edges n)" by simp
      have "Minimum n = Minimum (node e)"
        using None Cons by (subst Minimum.simps) (simp add: isLeaf_def)
      then have "kv \<in> set (leaves (node e))" using less.IH[OF edge_size[OF e]] less.prems by simp
      then show ?thesis using e by (auto simp: in_leaves_iff[of _ n])
    qed
  qed
qed

lemma Maximum_in_leaves: "Maximum n = Some kv \<Longrightarrow> kv \<in> set (leaves n)"
proof (induction n rule: measure_induct_rule[of size])
  case (less n)
  show ?case
  proof (cases "edges n = []")
    case True
    then have "Maximum n = (if isLeaf n then Some (key (the (leaf n)), val (the (leaf n))) else None)"
      by (subst Maximum.simps) simp
    then show ?thesis using less.prems
      by (auto simp: in_leaves_iff[of _ n] isLeaf_def split: if_splits)
  next
    case False
    define e where "e = edges n ! (length (edges n) - 1)"
    have e: "e \<in> set (edges n)" using False by (simp add: e_def)
    have "Maximum n = Maximum (node e)"
      using False by (subst Maximum.simps) (simp add: e_def Let_def)
    then have "kv \<in> set (leaves (node e))" using less.IH[OF edge_size[OF e]] less.prems by simp
    then show ?thesis using e by (auto simp: in_leaves_iff[of _ n])
  qed
qed

lemma sorted_hd_last:
  assumes "sorted_wrt (<) (map f xs)" "x \<in> set xs"
  shows "(f (hd xs) :: byte list) \<le> f x \<and> f x \<le> f (last xs)"
proof -
  obtain i where i: "i < length xs" "x = xs ! i" using assms(2) by (auto simp: in_set_conv_nth)
  have ne: "xs \<noteq> []" using assms(2) by auto
  have lt: "a < b \<Longrightarrow> b < length xs \<Longrightarrow> f (xs ! a) < f (xs ! b)" for a b
    using sorted_wrt_nth_less[OF assms(1), of a b] by simp
  have "f (xs ! 0) \<le> f (xs ! i)"
    using lt[of 0 i] i(1) by (cases "i = 0") (auto simp: less_imp_le)
  moreover have "f (xs ! i) \<le> f (xs ! (length xs - 1))"
    using lt[of i "length xs - 1"] i(1) ne by (cases "i = length xs - 1") (auto simp: less_imp_le)
  ultimately show ?thesis using ne i by (simp add: hd_conv_nth last_conv_nth)
qed

text \<open>Whatever the shape of the tree, a result of \<open>Minimum\<close> is the first leaf.\<close>

lemma Minimum_Some_first: "Minimum n = Some kv \<Longrightarrow> leaves n \<noteq> [] \<and> kv = hd (leaves n)"
proof (induction n rule: measure_induct_rule[of size])
  case (less n)
  show ?case
  proof (cases "leaf n")
    case (Some l)
    then have "Minimum n = Some (key l, val l)"
      by (subst Minimum.simps) (simp add: isLeaf_def)
    moreover have "leaves n = (key l, val l) # concat (map (\<lambda>e. leaves (node e)) (edges n))"
      using Some by (subst leaves_unfold) simp
    ultimately show ?thesis using less.prems by simp
  next
    case None
    show ?thesis
    proof (cases "edges n")
      case Nil
      then have "Minimum n = None" using None by (subst Minimum.simps) (simp add: isLeaf_def)
      then show ?thesis using less.prems by simp
    next
      case (Cons e es)
      then have e: "e \<in> set (edges n)" by simp
      have "Minimum n = Minimum (node e)"
        using None Cons by (subst Minimum.simps) (simp add: isLeaf_def)
      then have c: "leaves (node e) \<noteq> [] \<and> kv = hd (leaves (node e))"
        using less.IH[OF edge_size[OF e]] less.prems by simp
      have "leaves n = leaves (node e) @ concat (map (\<lambda>e. leaves (node e)) es)"
        using None Cons by (subst leaves_unfold) simp
      then show ?thesis using c by simp
    qed
  qed
qed

text \<open>And a result of \<open>Maximum\<close> is the last leaf.\<close>

lemma Maximum_Some_last: "Maximum n = Some kv \<Longrightarrow> leaves n \<noteq> [] \<and> kv = last (leaves n)"
proof (induction n rule: measure_induct_rule[of size])
  case (less n)
  show ?case
  proof (cases "edges n = []")
    case True
    have m: "Maximum n = (if isLeaf n then Some (key (the (leaf n)), val (the (leaf n))) else None)"
      using True by (subst Maximum.simps) simp
    then obtain l where l: "leaf n = Some l" "kv = (key l, val l)"
      using less.prems by (cases "leaf n") (auto simp: isLeaf_def)
    have "leaves n = [(key l, val l)]" using True l(1) by (subst leaves_unfold) simp
    then show ?thesis using l(2) by simp
  next
    case False
    define e where "e = edges n ! (length (edges n) - 1)"
    have el: "e = last (edges n)" using False by (simp add: e_def last_conv_nth)
    then have e: "e \<in> set (edges n)" using False by simp
    have "Maximum n = Maximum (node e)"
      using False by (subst Maximum.simps) (simp add: e_def Let_def)
    then have c: "leaves (node e) \<noteq> [] \<and> kv = last (leaves (node e))"
      using less.IH[OF edge_size[OF e]] less.prems by simp
    have "edges n = butlast (edges n) @ [e]" using False el by simp
    then have "concat (map (\<lambda>e. leaves (node e)) (edges n))
          = concat (map (\<lambda>e. leaves (node e)) (butlast (edges n))) @ leaves (node e)"
      by (metis (no_types, lifting) append_Nil2 concat.simps(1,2) concat_append list.simps(8,9) map_append)
    then have "last (leaves n) = last (leaves (node e))" "leaves n \<noteq> []"
      using c by (subst leaves_unfold, simp)+
    then show ?thesis using c by simp
  qed
qed

text \<open>
  C7. A tree of the package has no node below the root without leaf and without edges
  (an inserted node has a leaf or children, and the edge to a node that lost both is
  deleted); \<open>Minimum\<close> and \<open>Maximum\<close> rely on it, they stop at such a node. In a
  well-formed tree whatever \<open>Minimum\<close> returns is the first leaf and has the smallest key,
  whatever \<open>Maximum\<close> returns is the last leaf and has the largest key, and on a tree
  without leaves both return \<open>(nil, zero, false)\<close>. In a well-formed tree without such
  dead ends that has a leaf, \<open>Minimum\<close> returns \<open>(key, value, true)\<close> of the smallest key,
  the leaf of the first node with a leaf along the first edges, and \<open>Maximum\<close> returns
  \<open>(key, value, true)\<close> of the largest key, the leaf of the node without edges at the
  end of the last edges (a leaf on a node with edges is passed over).
\<close>

theorem Minimum_Maximum_return_the_smallest_and_largest_key:
  assumes "valid_tree t"
  shows "(leaves t \<noteq> [] \<and> no_dead_ends t \<longrightarrow>
            Minimum t = Some (hd (leaves t)) \<and> Maximum t = Some (last (leaves t))) \<and>
         (leaves t = [] \<longrightarrow> Minimum t = None \<and> Maximum t = None) \<and>
         (\<forall>kv. Minimum t = Some kv \<longrightarrow>
            kv \<in> set (leaves t) \<and> kv = hd (leaves t) \<and> (\<forall>kv' \<in> set (leaves t). fst kv \<le> fst kv')) \<and>
         (\<forall>kv. Maximum t = Some kv \<longrightarrow>
            kv \<in> set (leaves t) \<and> kv = last (leaves t) \<and> (\<forall>kv' \<in> set (leaves t). fst kv' \<le> fst kv))"
proof -
  have "node_ok [] t" using assms by (simp add: valid_tree_def)
  then have s: "sorted_wrt (<) (map fst (leaves t))" by (rule sorted_leaves)
  have 1: "leaves t \<noteq> [] \<and> no_dead_ends t \<longrightarrow>
            Minimum t = Some (hd (leaves t)) \<and> Maximum t = Some (last (leaves t))"
    using Minimum_first_leaf[of t] Maximum_last_leaf[of t] by simp
  have 2: "leaves t = [] \<longrightarrow> Minimum t = None \<and> Maximum t = None"
    using Minimum_Some_first[of t] Maximum_Some_last[of t]
    by (cases "Minimum t"; cases "Maximum t") auto
  have 3: "kv \<in> set (leaves t) \<and> kv = hd (leaves t) \<and> (\<forall>kv' \<in> set (leaves t). fst kv \<le> fst kv')"
    if m: "Minimum t = Some kv" for kv
  proof -
    have h: "leaves t \<noteq> []" "kv = hd (leaves t)" using Minimum_Some_first[OF m] by simp_all
    have "\<forall>kv' \<in> set (leaves t). fst (hd (leaves t)) \<le> fst kv'"
    proof
      fix kv' assume "kv' \<in> set (leaves t)"
      then show "fst (hd (leaves t)) \<le> fst kv'" using sorted_hd_last[OF s, of kv'] by blast
    qed
    then show ?thesis using h by simp
  qed
  have 4: "kv \<in> set (leaves t) \<and> kv = last (leaves t) \<and> (\<forall>kv' \<in> set (leaves t). fst kv' \<le> fst kv)"
    if m: "Maximum t = Some kv" for kv
  proof -
    have h: "leaves t \<noteq> []" "kv = last (leaves t)" using Maximum_Some_last[OF m] by simp_all
    have "\<forall>kv' \<in> set (leaves t). fst kv' \<le> fst (last (leaves t))"
    proof
      fix kv' assume "kv' \<in> set (leaves t)"
      then show "fst kv' \<le> fst (last (leaves t))" using sorted_hd_last[OF s, of kv'] by blast
    qed
    then show ?thesis using h by simp
  qed
  show ?thesis
  proof (intro conjI allI impI)
    assume a: "leaves t \<noteq> [] \<and> no_dead_ends t"
    show "Minimum t = Some (hd (leaves t))" using 1 a by blast
    show "Maximum t = Some (last (leaves t))" using 1 a by blast
  next
    assume a: "leaves t = []"
    show "Minimum t = None" using 2 a by blast
    show "Maximum t = None" using 2 a by blast
  next
    fix kv assume m: "Minimum t = Some kv"
    show "kv \<in> set (leaves t)" using 3[OF m] by blast
    show "kv = hd (leaves t)" using 3[OF m] by blast
    show "\<forall>kv' \<in> set (leaves t). fst kv \<le> fst kv'" using 3[OF m] by blast
  next
    fix kv assume m: "Maximum t = Some kv"
    show "kv \<in> set (leaves t)" using 4[OF m] by blast
    show "kv = last (leaves t)" using 4[OF m] by blast
    show "\<forall>kv' \<in> set (leaves t). fst kv' \<le> fst kv" using 4[OF m] by blast
  qed
qed

theorem Minimum_Maximum_return_the_smallest_and_largest_key_witness:
  "valid_tree example_tree \<and> leaves example_tree \<noteq> [] \<and> no_dead_ends example_tree \<and>
   Minimum example_tree = Some ([97], 1) \<and>
   Maximum example_tree = Some ([102, 111, 111, 122, 105, 112], 5) \<and>
   valid_tree (Node 7 None [] [] :: nat Node) \<and> leaves (Node 7 None [] [] :: nat Node) = [] \<and>
   Minimum (Node 7 None [] [] :: nat Node) = None \<and> Maximum (Node 7 None [] [] :: nat Node) = None"
proof -
  have v: "valid_tree example_tree" by code_simp
  have n: "leaves example_tree \<noteq> [] \<and> no_dead_ends example_tree" by code_simp
  have h: "hd (leaves example_tree) = ([97], 1)"
    "last (leaves example_tree) = ([102, 111, 111, 122, 105, 112], 5)" by code_simp+
  have v0: "valid_tree (Node 7 None [] [] :: nat Node)" by code_simp
  have l0: "leaves (Node 7 None [] [] :: nat Node) = []" by simp
  note a = Minimum_Maximum_return_the_smallest_and_largest_key[OF v, THEN conjunct1]
  note b = Minimum_Maximum_return_the_smallest_and_largest_key[OF v0, THEN conjunct2, THEN conjunct1]
  show ?thesis using v n h v0 l0 a b by simp
qed

section \<open>The backward walk\<close>

lemma reverseRecursiveWalk_never_aborting:
  "(\<forall>k v s. \<not> fst (fn k v s)) \<Longrightarrow>
     reverseRecursiveWalk n fn s = (False, visit_all fn s (backwards n))"
  "(\<forall>k v s. \<not> fst (fn k v s)) \<Longrightarrow>
     reverseRecursiveWalk_edges es fn s =
       (False, visit_all fn s (concat (map (\<lambda>e. backwards (node e)) es)))"
proof (induction n fn s and es fn s rule: reverseRecursiveWalk_reverseRecursiveWalk_edges.induct)
  case (1 a lf p es fn s)
  have b: "backwards (Node a lf p es) =
      (case lf of None \<Rightarrow> [] | Some l \<Rightarrow> [(key l, val l)]) @
      concat (map (\<lambda>e. backwards (node e)) (rev es))"
    by (subst backwards.simps) simp
  show ?case
  proof (cases lf)
    case None
    then show ?thesis using 1(1)[OF None 1(3)] b by simp
  next
    case (Some l)
    obtain c s' where f: "fn (key l) (val l) s = (c, s')" by (cases "fn (key l) (val l) s")
    have "\<not> fst (fn (key l) (val l) s)" using 1(3) by blast
    then have c: "c = False" using f by simp
    show ?thesis using Some f c b 1(2)[OF Some f[unfolded c, symmetric] refl 1(3)] by simp
  qed
next
  case (2 fn s)
  then show ?case by simp
next
  case (3 e es fn s)
  obtain c s' where f: "reverseRecursiveWalk (node e) fn s = (c, s')"
    by (cases "reverseRecursiveWalk (node e) fn s")
  then have c: "c = False" "s' = visit_all fn s (backwards (node e))" using 3(1)[OF 3(3)] by simp_all
  show ?case using f c 3(2)[OF f[unfolded c(1), symmetric] refl 3(3)] by simp
qed

lemma mset_backwards: "mset (backwards n) = mset (leaves n)"
proof (induction n rule: measure_induct_rule[of size])
  case (less n)
  have "mset (concat (map (\<lambda>e. backwards (node e)) (rev (edges n))))
        = sum_list (map (\<lambda>e. mset (backwards (node e))) (rev (edges n)))"
    by (simp add: mset_concat comp_def)
  also have "\<dots> = sum_list (map (\<lambda>e. mset (backwards (node e))) (edges n))"
    by (simp add: rev_map[symmetric] sum_list_rev)
  also have "\<dots> = sum_list (map (\<lambda>e. mset (leaves (node e))) (edges n))"
    using less.IH[OF edge_size] by (simp cong: map_cong)
  also have "\<dots> = mset (concat (map (\<lambda>e. leaves (node e)) (edges n)))"
    by (simp add: mset_concat comp_def)
  finally show ?case
    by (subst backwards.simps, subst leaves_unfold) simp
qed

lemma backwards_rev:
  assumes "no_key_extends_another n" "node_ok acc n"
  shows "backwards n = rev (leaves n)"
  using assms
proof (induction n arbitrary: acc rule: measure_induct_rule[of size])
  case (less n)
  note free = less.prems(1) and ok = less.prems(2)
  have sub: "set (leaves (node e)) \<subseteq> set (leaves n)" if "e \<in> set (edges n)" for e
    using that by (auto simp: in_leaves_iff[of _ n])
  have child: "backwards (node e) = rev (leaves (node e))" if e: "e \<in> set (edges n)" for e
  proof -
    have "no_key_extends_another (node e)"
      using free sub[OF e] unfolding no_key_extends_another_def by blast
    moreover have "node_ok (acc @ prefix n) (node e)" using node_ok_child[OF ok e] by simp
    ultimately show ?thesis by (rule less.IH[OF edge_size[OF e]])
  qed
  have below: "concat (map (\<lambda>e. backwards (node e)) (rev (edges n)))
        = rev (concat (map (\<lambda>e. leaves (node e)) (edges n)))"
  proof -
    have m: "map (\<lambda>e. backwards (node e)) (rev (edges n)) = map (\<lambda>e. rev (leaves (node e))) (rev (edges n))"
      by (rule map_cong[OF refl]) (use child in simp)
    have "concat (map (\<lambda>e. backwards (node e)) (rev (edges n)))
          = concat (map (\<lambda>e. rev (leaves (node e))) (rev (edges n)))"
      by (simp only: m)
    also have "\<dots> = rev (concat (map (\<lambda>e. leaves (node e)) (edges n)))"
      by (simp add: rev_concat rev_map comp_def)
    finally show ?thesis .
  qed
  show ?case
  proof (cases "leaf n")
    case None
    then show ?thesis using below by (subst backwards.simps, subst leaves_unfold) simp
  next
    case (Some l)
    have "leaves (node e) = []" if e: "e \<in> set (edges n)" for e
    proof (rule ccontr)
      assume "leaves (node e) \<noteq> []"
      then obtain kv where kv: "kv \<in> set (leaves (node e))" by (cases "leaves (node e)") auto
      obtain r where r: "fst kv = acc @ prefix n @ label e # r"
        using keys_below_edge[OF ok e, of "fst kv" "snd kv"] kv by auto
      have k: "key l = acc @ prefix n" by (rule node_ok_leaf[OF ok Some])
      have "(key l, val l) \<in> set (leaves n)" using Some by (auto simp: in_leaves_iff[of _ n])
      moreover have "kv \<in> set (leaves n)" using sub[OF e] kv by blast
      moreover have "bytes_HasPrefix (fst kv) (key l)" using r k by (simp add: HasPrefix_iff)
      ultimately have "fst kv = key l"
        using free unfolding no_key_extends_another_def by fastforce
      then show False using r k by simp
    qed
    then have c: "concat (map (\<lambda>e. leaves (node e)) (edges n)) = []" by simp
    have "backwards n = [(key l, val l)]"
      using below Some by (subst backwards.simps) (simp add: c)
    moreover have "leaves n = [(key l, val l)]"
      using Some by (subst leaves_unfold) (simp add: c)
    ultimately show ?thesis by simp
  qed
qed


text \<open>
  What the backward walk does keep: with a callback that never aborts it visits the
  pairs that \<open>Walk\<close> visits, each as often, and when no key of the tree is a proper
  prefix of another key its sequence is the reverse of the sequence of \<open>Walk\<close>, with
  strictly descending keys.
\<close>

lemma WalkBackwards_rearranges_Walk:
  assumes "valid_tree t"
  shows "mset (WalkBackwards t record_visit []) = mset (Walk t record_visit []) \<and>
         (no_key_extends_another t \<longrightarrow>
            WalkBackwards t record_visit [] = rev (Walk t record_visit []) \<and>
            sorted_wrt (\<lambda>a b. b < a) (map fst (WalkBackwards t record_visit [])))"
proof -
  have ok: "node_ok [] t" using assms by (simp add: valid_tree_def)
  have r: "\<forall>k v s. \<not> fst (record_visit k v (s :: (byte list \<times> 'a) list))"
    by (simp add: record_visit_def)
  have w: "Walk t record_visit [] = leaves t"
    using recursiveWalk_never_aborting(1)[OF r, of t "[]"]
    by (simp add: Walk_def visit_all_record)
  have b: "WalkBackwards t record_visit [] = backwards t"
    using reverseRecursiveWalk_never_aborting(1)[OF r, of t "[]"]
    by (simp add: WalkBackwards_def visit_all_record)
  have s: "sorted_wrt (<) (map fst (leaves t))" by (rule sorted_leaves[OF ok])
  have "sorted_wrt (\<lambda>a b. b < a) (map fst (rev (leaves t)))"
    using s unfolding rev_map[symmetric] sorted_wrt_rev by simp
  then show ?thesis
    unfolding w b using mset_backwards[of t] backwards_rev[OF _ ok] by auto
qed

lemma WalkBackwards_rearranges_Walk_example:
  "valid_tree tips_tree \<and> no_key_extends_another tips_tree \<and>
   Walk tips_tree record_visit [] = [([97, 98], 1), ([97, 99], 2), ([98], 3)] \<and>
   WalkBackwards tips_tree record_visit [] = [([98], 3), ([97, 99], 2), ([97, 98], 1)]"
proof -
  have v: "valid_tree tips_tree" by code_simp
  have n: "no_key_extends_another tips_tree" by code_simp
  have w: "Walk tips_tree record_visit [] = [([97, 98], 1), ([97, 99], 2), ([98], 3)]"
    by code_simp
  show ?thesis
    using v n w WalkBackwards_rearranges_Walk[OF v] by simp
qed

text \<open>
  C5. \<open>WalkBackwards\<close> is documented to walk the tree in reverse order, and the claim
  is that its sequence is the reverse of the sequence of \<open>Walk\<close>, with strictly
  descending keys. \<open>reverseRecursiveWalk\<close> reverses the order of the edges only: it
  still calls the callback on the leaf of a node before it goes down, where the reverse
  iterator returns that leaf after the leaves below. On the example tree (the keys \<open>a\<close>,
  \<open>ab\<close>, \<open>foo\<close>, \<open>foobar\<close>, \<open>foozip\<close>) the forward walk and the reverse iterator
  are as claimed, and the backward walk visits \<open>foo\<close> before \<open>foozip\<close> and \<open>foobar\<close>,
  and \<open>a\<close> before \<open>ab\<close>.
\<close>

theorem WalkBackwards_visits_a_key_before_its_extensions:
  "valid_tree example_tree \<and>
   Walk example_tree record_visit [] =
     [([97], 1), ([97, 98], 2), ([102, 111, 111], 3),
      ([102, 111, 111, 98, 97, 114], 4), ([102, 111, 111, 122, 105, 112], 5)] \<and>
   WalkBackwards example_tree record_visit [] =
     [([102, 111, 111], 3), ([102, 111, 111, 122, 105, 112], 5),
      ([102, 111, 111, 98, 97, 114], 4), ([97], 1), ([97, 98], 2)] \<and>
   WalkBackwards example_tree record_visit [] \<noteq> rev (Walk example_tree record_visit []) \<and>
   drain_reverse (NewReverseIterator example_tree) =
     Some (Inr (rev (Walk example_tree record_visit [])))"
  by code_simp

section \<open>Comparing a prefix with the search key\<close>

lemma bytes_Compare_less: "bytes_Compare a b < 0 \<longleftrightarrow> a < b"
  by (induction a b rule: bytes_Compare.induct) auto

lemma bytes_Compare_eq: "bytes_Compare a b = 0 \<longleftrightarrow> a = b"
  by (induction a b rule: bytes_Compare.induct) auto

lemma bytes_Compare_greater: "bytes_Compare a b > 0 \<longleftrightarrow> b < a"
  by (induction a b rule: bytes_Compare.induct) auto

lemma less_append_right: "(a :: byte list) < b \<Longrightarrow> a < b @ r"
proof (induction a arbitrary: b)
  case Nil
  then show ?case by (cases b) auto
next
  case (Cons x xs)
  then show ?case by (cases b) auto
qed

lemma less_append_left: "(a :: byte list) < b \<Longrightarrow> length b \<le> length a \<Longrightarrow> a @ r < b"
proof (induction a arbitrary: b)
  case Nil
  then show ?case by (cases b) auto
next
  case (Cons x xs)
  then show ?case by (cases b) auto
qed

lemma le_append: "(a :: byte list) \<le> a @ r"
  by (induction a) auto

lemma less_append_both:
  assumes "(a :: byte list) < b" "length a = length b"
  shows "a @ x < b @ y"
proof -
  have "a @ x < b" using less_append_left[OF assms(1)] assms(2) by simp
  also have "b \<le> b @ y" by (rule le_append)
  finally show ?thesis .
qed

text \<open>
  What the comparison at the head of the seek loops says about the keys below the node:
  \<open>r\<close> is the rest of such a key after the prefix of the node.
\<close>

lemma prefixCmp_greater: "prefixCmp n search > 0 \<Longrightarrow> search < prefix n @ r"
proof -
  assume c: "prefixCmp n search > 0"
  show ?thesis
  proof (cases "length (prefix n) < length search")
    case True
    then have "take (length (prefix n)) search < prefix n"
      using c by (simp add: prefixCmp_def bytes_Compare_greater)
    then have "take (length (prefix n)) search @ drop (length (prefix n)) search < prefix n @ r"
      using True by (intro less_append_both) simp_all
    then show ?thesis by simp
  next
    case False
    then have "search < prefix n" using c by (simp add: prefixCmp_def bytes_Compare_greater)
    then show ?thesis by (rule less_append_right)
  qed
qed

lemma prefixCmp_less: "prefixCmp n search < 0 \<Longrightarrow> prefix n @ r < search"
proof -
  assume c: "prefixCmp n search < 0"
  show ?thesis
  proof (cases "length (prefix n) < length search")
    case True
    then have "prefix n < take (length (prefix n)) search"
      using c by (simp add: prefixCmp_def bytes_Compare_less)
    then have "prefix n @ r < take (length (prefix n)) search @ drop (length (prefix n)) search"
      using True by (intro less_append_both) simp_all
    then show ?thesis by simp
  next
    case False
    then have "prefix n < search" using c by (simp add: prefixCmp_def bytes_Compare_less)
    then show ?thesis using False by (intro less_append_left) simp_all
  qed
qed

lemma prefixCmp_eq:
  "\<not> prefixCmp n search > 0 \<Longrightarrow> \<not> prefixCmp n search < 0 \<Longrightarrow>
     search = prefix n @ drop (length (prefix n)) search"
proof -
  assume "\<not> prefixCmp n search > 0" "\<not> prefixCmp n search < 0"
  then have c: "prefixCmp n search = 0" by simp
  show ?thesis
  proof (cases "length (prefix n) < length search")
    case True
    then have "take (length (prefix n)) search = prefix n"
      using c by (simp add: prefixCmp_def bytes_Compare_eq)
    then show ?thesis by (metis append_take_drop_id)
  next
    case False
    then have "prefix n = search" using c by (simp add: prefixCmp_def bytes_Compare_eq)
    then show ?thesis by simp
  qed
qed

section \<open>The forward seek\<close>

lemma pending_push: "pending (push sl st) = concat (map leaves sl) @ pending st"
  by (cases st) (simp_all add: pending_def push_def)

lemma slices_nonempty_push:
  "sl \<noteq> [] \<Longrightarrow> slices_nonempty st \<Longrightarrow> slices_nonempty (push sl st)"
  by (cases st) (simp_all add: slices_nonempty_def push_def)

lemma recurseMin_correct:
  "slices_nonempty st \<Longrightarrow>
     slices_nonempty (snd (recurseMin n st)) \<and>
     (case fst (recurseMin n st) of None \<Rightarrow> [] | Some m \<Rightarrow> leaves m) @ pending (snd (recurseMin n st))
       = leaves n @ pending st"
proof (induction n arbitrary: st rule: measure_induct_rule[of size])
  case (less n)
  show ?case
  proof (cases "leaf n")
    case (Some l)
    then have "recurseMin n st = (Some n, st)" by (subst recurseMin.simps) simp
    then show ?thesis using less.prems by simp
  next
    case None
    define st1 where "st1 = (if length (children n) > 1 then push (drop 1 (children n)) st else st)"
    have l: "leaves n = concat (map leaves (children n))"
      using None by (subst leaves_children) simp
    have ok1: "slices_nonempty st1"
      using less.prems by (auto simp: st1_def intro!: slices_nonempty_push)
    show ?thesis
    proof (cases "children n")
      case Nil
      then have "recurseMin n st = (None, st)"
        using None by (subst recurseMin.simps) simp
      then show ?thesis using less.prems l Nil by simp
    next
      case (Cons c cs)
      have p1: "pending st1 = concat (map leaves cs) @ pending st"
        using Cons by (cases cs) (simp_all add: st1_def pending_push)
      have r: "recurseMin n st = recurseMin c st1"
        using None Cons by (subst recurseMin.simps) (simp add: st1_def Let_def)
      have "c \<in> node ` set (edges n)" using Cons by (auto simp: children_def)
      then have sz: "size c < size n" by (rule size_child)
      show ?thesis
        unfolding r using less.IH[OF sz ok1] p1 l Cons by simp
    qed
  qed
qed

lemma findMin_correct:
  assumes "slices_nonempty st"
  shows "slices_nonempty (findMin n st)" "pending (findMin n st) = leaves n @ pending st"
proof -
  obtain r st' where r: "recurseMin n st = (r, st')" by (cases "recurseMin n st")
  have c: "slices_nonempty st'"
    "(case r of None \<Rightarrow> [] | Some m \<Rightarrow> leaves m) @ pending st' = leaves n @ pending st"
    using recurseMin_correct[OF assms, of n] r by simp_all
  show "slices_nonempty (findMin n st)"
    using c(1) r by (cases r) (simp_all add: findMin_def found_def slices_nonempty_push)
  show "pending (findMin n st) = leaves n @ pending st"
    using c(2) r by (cases r) (simp_all add: findMin_def found_def pending_push)
qed

lemma filter_all: "(\<forall>x \<in> set xs. P x) \<Longrightarrow> filter P xs = xs"
  by (simp add: filter_id_conv)

lemma filter_none: "(\<forall>x \<in> set xs. \<not> P x) \<Longrightarrow> filter P xs = []"
  by (simp add: filter_empty_conv)

lemma filter_concat_map: "filter P (concat (map f xs)) = concat (map (\<lambda>x. filter P (f x)) xs)"
  by (induction xs) simp_all

lemma concat_map_Nil: "(\<forall>x \<in> set xs. f x = []) \<Longrightarrow> concat (map f xs) = []"
  by (induction xs) simp_all

lemma getLowerBoundEdge_eq:
  "getLowerBoundEdge n b =
     (if edge_search n b < length (edges n)
      then (int (edge_search n b), Some (node (edges n ! edge_search n b)))
      else (- 1, None))"
  by (simp add: getLowerBoundEdge_def Let_def)

text \<open>Keys below an edge against a search key that continues with the byte \<open>b\<close>.\<close>

lemma keys_below_edge_less:
  assumes "node_ok acc n" "e \<in> set (edges n)" "label e < b" "kv \<in> set (leaves (node e))"
  shows "fst kv < acc @ prefix n @ b # s"
proof -
  obtain r where "fst kv = acc @ prefix n @ label e # r"
    using keys_below_edge[OF assms(1,2), of "fst kv" "snd kv"] assms(4) by auto
  then show ?thesis
    using Cons_less_append[OF assms(3), of "acc @ prefix n" r s] by simp
qed

lemma keys_below_edge_greater:
  assumes "node_ok acc n" "e \<in> set (edges n)" "b < label e" "kv \<in> set (leaves (node e))"
  shows "acc @ prefix n @ b # s < fst kv"
proof -
  obtain r where "fst kv = acc @ prefix n @ label e # r"
    using keys_below_edge[OF assms(1,2), of "fst kv" "snd kv"] assms(4) by auto
  then show ?thesis
    using Cons_less_append[OF assms(3), of "acc @ prefix n" s r] by simp
qed

lemma SeekLowerBound_loop_correct:
  "node_ok acc n \<Longrightarrow> slices_nonempty st \<Longrightarrow>
     slices_nonempty (SeekLowerBound_loop n search (acc @ search) st) \<and>
     pending (SeekLowerBound_loop n search (acc @ search) st)
       = filter (\<lambda>kv. acc @ search \<le> fst kv) (leaves n) @ pending st"
proof (induction n arbitrary: acc search st rule: measure_induct_rule[of size])
  case (less n)
  note ok = less.prems(1) and sn = less.prems(2)
  define k where "k = acc @ search"
  define P where "P = (\<lambda>kv :: byte list \<times> 'a. k \<le> fst kv)"
  have keys: "\<exists>r. fst kv = acc @ prefix n @ r" if "kv \<in> set (leaves n)" for kv
    using keys_below[OF ok, of "fst kv" "snd kv"] that by simp
  have sorted: "sorted_edges n" by (rule node_ok_sorted[OF ok])
  show ?case unfolding k_def[symmetric] P_def[symmetric]
  proof (cases "prefixCmp n search > 0")
    case True
    have "\<forall>kv \<in> set (leaves n). P kv"
    proof
      fix kv assume "kv \<in> set (leaves n)"
      then obtain r where r: "fst kv = acc @ prefix n @ r" using keys by blast
      have "search < prefix n @ r" by (rule prefixCmp_greater[OF True])
      then show "P kv" unfolding P_def k_def r by (simp add: append_less_cancel less_imp_le)
    qed
    then have f: "filter P (leaves n) = leaves n" by (rule filter_all)
    have "SeekLowerBound_loop n search k st = findMin n st"
      using True by (subst SeekLowerBound_loop.simps) simp
    then show "slices_nonempty (SeekLowerBound_loop n search k st) \<and>
      pending (SeekLowerBound_loop n search k st) = filter P (leaves n) @ pending st"
      using findMin_correct[OF sn, of n] f by simp
  next
    case ngt: False
    show "slices_nonempty (SeekLowerBound_loop n search k st) \<and>
      pending (SeekLowerBound_loop n search k st) = filter P (leaves n) @ pending st"
    proof (cases "prefixCmp n search < 0")
      case True
      have "\<forall>kv \<in> set (leaves n). \<not> P kv"
      proof
        fix kv assume "kv \<in> set (leaves n)"
        then obtain r where r: "fst kv = acc @ prefix n @ r" using keys by blast
        have "prefix n @ r < search" by (rule prefixCmp_less[OF True])
        then show "\<not> P kv" unfolding P_def k_def r by (simp add: append_less_cancel not_le)
      qed
      then have f: "filter P (leaves n) = []" by (rule filter_none)
      have "SeekLowerBound_loop n search k st = st"
        using True ngt by (subst SeekLowerBound_loop.simps) simp
      then show ?thesis using sn f by simp
    next
      case nlt: False
      define s' where "s' = drop (length (prefix n)) search"
      have split: "search = prefix n @ s'" unfolding s'_def by (rule prefixCmp_eq[OF ngt nlt])
      have kk: "k = acc @ prefix n @ s'" using split by (simp add: k_def)
      have ge: "P kv" if h1: "kv \<in> set (leaves n)" and h2: "s' = []" for kv
      proof -
        obtain r where r: "fst kv = acc @ prefix n @ r" using keys[OF h1] by blast
        show ?thesis unfolding P_def kk r using h2 le_append[of "acc @ prefix n" r] by simp
      qed
      show ?thesis
      proof (cases "leaf n \<noteq> None \<and> key (the (leaf n)) = k")
        case True
        then obtain l where l: "leaf n = Some l" "key l = k" by auto
        have "k = acc @ prefix n" using node_ok_leaf[OF ok l(1)] l(2) by simp
        then have "s' = []" using kk by simp
        then have f: "filter P (leaves n) = leaves n" using ge by (intro filter_all) blast
        have "SeekLowerBound_loop n search k st = found n st"
          using True ngt nlt by (subst SeekLowerBound_loop.simps) simp
        then show ?thesis
          using f sn by (simp add: found_def pending_push slices_nonempty_push)
      next
        case nex: False
        have step: "SeekLowerBound_loop n search k st =
              (if s' = [] then findMin n st
               else (case getLowerBoundEdge n (s' ! 0) of
                 (i, None) \<Rightarrow> st
               | (i, Some lbNode) \<Rightarrow>
                   SeekLowerBound_loop lbNode s' k
                     (if i + 1 < int (length (children n))
                      then push (drop (nat (i + 1)) (children n)) st else st)))"
          by (subst SeekLowerBound_loop.simps, subst if_not_P[OF nex])
             (simp add: ngt nlt s'_def Let_def)
        show ?thesis
        proof (cases "s' = []")
          case True
          then have f: "filter P (leaves n) = leaves n" using ge by (intro filter_all) blast
          have "SeekLowerBound_loop n search k st = findMin n st"
            unfolding step using True by simp
          then show ?thesis using findMin_correct[OF sn, of n] f by simp
        next
          case False
          then obtain b s2 where bs: "s' = b # s2" by (cases s') auto
          have kb: "k = acc @ prefix n @ b # s2" using kk bs by simp
          define idx where "idx = edge_search n b"
          define L where "L = (\<lambda>e :: 'a Node edge_of. leaves (node e))"
          have own: "filter P (case leaf n of None \<Rightarrow> [] | Some l \<Rightarrow> [(key l, val l)]) = []"
          proof (cases "leaf n")
            case None
            then show ?thesis by simp
          next
            case (Some l)
            have "key l = acc @ prefix n" by (rule node_ok_leaf[OF ok Some])
            then have "key l < k" unfolding kb using less_append_Cons[of "acc @ prefix n" b s2] by simp
            then show ?thesis using Some by (simp add: P_def not_le)
          qed
          have lo: "filter P (L e) = []" if "e \<in> set (edges n)" "label e < b" for e
          proof (rule filter_none, rule ballI)
            fix kv assume "kv \<in> set (L e)"
            then have "fst kv < k"
              unfolding kb L_def by (intro keys_below_edge_less[OF ok that])
            then show "\<not> P kv" by (simp add: P_def not_le)
          qed
          have hi: "filter P (L e) = L e" if "e \<in> set (edges n)" "b < label e" for e
          proof (rule filter_all, rule ballI)
            fix kv assume "kv \<in> set (L e)"
            then have "k < fst kv"
              unfolding kb L_def by (intro keys_below_edge_greater[OF ok that])
            then show "P kv" by (simp add: P_def less_imp_le)
          qed
          have ln: "leaves n = (case leaf n of None \<Rightarrow> [] | Some l \<Rightarrow> [(key l, val l)]) @
                concat (map L (take idx (edges n))) @ concat (map L (drop idx (edges n)))"
            unfolding L_def
            by (subst leaves_unfold) (metis append_take_drop_id concat_append map_append)
          have tk: "filter P (concat (map L (take idx (edges n)))) = []"
          proof -
            have "\<forall>e \<in> set (take idx (edges n)). filter P (L e) = []"
              unfolding idx_def edge_search_take[OF sorted] using lo by simp
            then show ?thesis unfolding filter_concat_map by (rule concat_map_Nil)
          qed
          have lnf: "filter P (leaves n) = filter P (concat (map L (drop idx (edges n))))"
            by (subst ln) (simp only: filter_append own tk append_Nil)
          have simp_loop: "SeekLowerBound_loop n search k st =
              (case getLowerBoundEdge n b of
                 (i, None) \<Rightarrow> st
               | (i, Some lbNode) \<Rightarrow>
                   SeekLowerBound_loop lbNode s' k
                     (if i + 1 < int (length (children n))
                      then push (drop (nat (i + 1)) (children n)) st else st))"
          proof -
            have "s' ! 0 = b" "s' \<noteq> []" using bs by simp_all
            then show ?thesis unfolding step by (simp only: if_False)
          qed
          show ?thesis
          proof (cases "idx < length (edges n)")
            case False
            then have "drop idx (edges n) = []" by simp
            then have f: "filter P (leaves n) = []"
              unfolding lnf by simp
            have "SeekLowerBound_loop n search k st = st"
              unfolding simp_loop getLowerBoundEdge_eq using False by (simp add: idx_def)
            then show ?thesis using sn f by simp
          next
            case True
            define e where "e = edges n ! idx"
            define c where "c = node e"
            define st1 where "st1 = (if idx + 1 < length (edges n)
                                     then push (drop (idx + 1) (children n)) st else st)"
            have emem: "e \<in> set (edges n)" using True by (simp add: e_def)
            have dr: "drop idx (edges n) = e # drop (idx + 1) (edges n)"
              using True by (simp add: e_def Cons_nth_drop_Suc)
            have ble: "b \<le> label e"
              using edge_search_spec(3)[OF sorted, of b idx] True by (simp add: idx_def e_def)
            have above: "filter P (concat (map L (drop (idx + 1) (edges n))))
                  = concat (map L (drop (idx + 1) (edges n)))"
            proof -
              have "\<forall>x \<in> set (drop (idx + 1) (edges n)). filter P (L x) = L x"
              proof
                fix x assume x: "x \<in> set (drop (idx + 1) (edges n))"
                then obtain j where j: "j < length (edges n) - (idx + 1)" "x = edges n ! (idx + 1 + j)"
                  by (auto simp: in_set_conv_nth)
                have "label e < label x"
                  unfolding e_def j(2) by (rule sorted_edges_nth_less[OF sorted]) (use j in simp_all)
                then have "b < label x" using ble by simp
                moreover have "x \<in> set (edges n)" using x by (rule in_set_dropD)
                ultimately show "filter P (L x) = L x" by (intro hi)
              qed
              then show ?thesis unfolding filter_concat_map
                by (intro arg_cong[where f=concat] map_cong refl) simp
            qed
            have f: "filter P (leaves n) = filter P (leaves c) @ concat (map L (drop (idx + 1) (edges n)))"
            proof -
              have "filter P (concat (map L (e # drop (idx + 1) (edges n))))
                    = filter P (L e) @ filter P (concat (map L (drop (idx + 1) (edges n))))"
                by (simp only: list.map concat.simps filter_append)
              also have "\<dots> = filter P (L e) @ concat (map L (drop (idx + 1) (edges n)))"
                by (simp only: above)
              also have "L e = leaves c" by (simp add: L_def c_def)
              finally show ?thesis unfolding lnf dr .
            qed
            have p1: "pending st1 = concat (map L (drop (idx + 1) (edges n))) @ pending st"
              by (simp add: st1_def pending_push children_def drop_map L_def comp_def)
            have ok1: "slices_nonempty st1"
              using sn by (auto simp: st1_def children_def intro!: slices_nonempty_push)
            have rec: "SeekLowerBound_loop n search k st = SeekLowerBound_loop c s' k st1"
              unfolding simp_loop getLowerBoundEdge_eq using True
              by (simp add: idx_def[symmetric] e_def[symmetric] c_def st1_def children_def nat_add_distrib)
            have cok: "node_ok (acc @ prefix n) c"
              using node_ok_child[OF ok emem] by (simp add: c_def)
            have sz: "size c < size n" unfolding c_def by (rule edge_size[OF emem])
            have k2: "(acc @ prefix n) @ s' = k" using kk by simp
            have IH: "slices_nonempty (SeekLowerBound_loop c s' k st1) \<and>
                  pending (SeekLowerBound_loop c s' k st1) = filter P (leaves c) @ pending st1"
              using less.IH[OF sz cok ok1, of s'] unfolding k2 P_def by simp
            show ?thesis unfolding rec using IH f p1 by simp
          qed
        qed
      qed
    qed
  qed
qed

lemma drain_pending:
  assumes "slices_nonempty st"
  shows "drain \<lparr>it_node = None, stack = st\<rparr> = Inr (pending st)"
proof (cases st)
  case None
  then show ?thesis by (subst drain.simps) (simp add: Next_def pending_def)
next
  case (Some s)
  have "\<forall>sl \<in> set s. sl \<noteq> []" using assms Some by (simp add: slices_nonempty_def)
  then show ?thesis unfolding Some by (simp add: drain_stack pending_def)
qed

lemma sorted_wrt_filter_leaves:
  "valid_tree t \<Longrightarrow> sorted_wrt (<) (map fst (filter P (leaves t)))"
  using sorted_leaves[of "[]" t] sorted_wrt_filter[of "\<lambda>a b. fst a < fst b" "leaves t" P]
  by (simp add: valid_tree_def sorted_wrt_map)

text \<open>
  C2. For every valid tree and every key \<open>k\<close>, \<open>SeekLowerBound(k)\<close> on an iterator rooted
  at the tree followed by \<open>Next\<close> until it reports false returns without a panic, and
  yields exactly the pairs of the tree whose key is at least \<open>k\<close> in the lexicographic
  order of unsigned bytes, each once and with its value, in strictly ascending order of
  the keys.
\<close>

theorem SeekLowerBound_then_Next_yields_the_keys_from_k_ascending:
  assumes "valid_tree t"
  shows "SeekLowerBound_then_drain t k = Inr (filter (\<lambda>kv. k \<le> fst kv) (leaves t)) \<and>
         sorted_wrt (<) (map fst (filter (\<lambda>kv. k \<le> fst kv) (leaves t)))"
proof -
  have ok: "node_ok [] t" using assms by (simp add: valid_tree_def)
  have e: "slices_nonempty (None :: 'a stack)" by (simp add: slices_nonempty_def)
  have L: "slices_nonempty (SeekLowerBound_loop t k k None) \<and>
           pending (SeekLowerBound_loop t k k None) = filter (\<lambda>kv. k \<le> fst kv) (leaves t)"
    using SeekLowerBound_loop_correct[OF ok e, of k] by (simp add: pending_def)
  have "SeekLowerBound_then_drain t k = drain \<lparr>it_node = None, stack = SeekLowerBound_loop t k k None\<rparr>"
    by (simp add: SeekLowerBound_then_drain_def SeekLowerBound_def Iterator_def)
  also have "\<dots> = Inr (pending (SeekLowerBound_loop t k k None))"
    using L by (intro drain_pending) simp
  finally show ?thesis using L sorted_wrt_filter_leaves[OF assms] by simp
qed

theorem SeekLowerBound_then_Next_yields_the_keys_from_k_ascending_witness:
  "valid_tree example_tree \<and>
   SeekLowerBound_then_drain example_tree [102, 111, 111, 97]
     = Inr [([102, 111, 111, 98, 97, 114], 4), ([102, 111, 111, 122, 105, 112], 5)] \<and>
   filter (\<lambda>kv. [102, 111, 111, 97] \<le> fst kv) (leaves example_tree)
     = [([102, 111, 111, 98, 97, 114], 4), ([102, 111, 111, 122, 105, 112], 5)]"
proof -
  have v: "valid_tree example_tree" by code_simp
  have f: "filter (\<lambda>kv. [102, 111, 111, 97] \<le> fst kv) (leaves example_tree)
     = [([102, 111, 111, 98, 97, 114], 4), ([102, 111, 111, 122, 105, 112], 5)]"
    by code_simp
  show ?thesis
    using SeekLowerBound_then_Next_yields_the_keys_from_k_ascending[OF v, of "[102, 111, 111, 97]", THEN conjunct1]
      v f by simp
qed

section \<open>The reverse iterator\<close>

lemma yield_first_Nil [simp]: "yield_first [] r = r"
  by (simp add: yield_first_def split: option.splits sum.splits)

lemma yield_first_append: "yield_first (xs @ ys) r = yield_first xs (yield_first ys r)"
  by (simp add: yield_first_def split: option.splits sum.splits)

lemma rdrain_unfold:
  "rdrain s ex =
     (case Previous_loop s ex of
        None \<Rightarrow> None
      | Some (Inl e) \<Rightarrow> Some (Inl e)
      | Some (Inr (None, st', ex')) \<Rightarrow> Some (Inr [])
      | Some (Inr (Some kv, st', ex')) \<Rightarrow> yield_first [kv] (rdrain st' ex'))"
  unfolding rdrain_def
  by (subst drain_reverse.simps)
     (simp add: Previous_def yield_first_def split: option.splits sum.splits)

lemma rdrain_Nil: "rdrain [] ex = Some (Inr [])"
  by (subst rdrain_unfold, subst Previous_loop.simps) simp

lemma Previous_loop_expand:
  assumes "children n \<noteq> []" "addr n \<notin> ex"
  shows "Previous_loop ((pre @ [n]) # rest) ex
           = Previous_loop (children n # [n] # popped pre rest) (insert (addr n) ex)"
  using assms
  by (subst Previous_loop.simps) (simp add: Let_def popped_def)

lemma Previous_loop_emit:
  assumes "children n = [] \<or> addr n \<in> ex"
  shows "Previous_loop ((pre @ [n]) # rest) ex
           = (case leaf n of
                Some l \<Rightarrow> Some (Inr (Some (key l, val l), popped pre rest, ex - {addr n}))
              | None \<Rightarrow> Previous_loop (popped pre rest) (ex - {addr n}))"
  using assms
  by (subst Previous_loop.simps) (auto simp: Let_def popped_def split: option.splits)

lemma rdrain_expand:
  assumes "children n \<noteq> []" "addr n \<notin> ex"
  shows "rdrain ((pre @ [n]) # rest) ex
           = rdrain (children n # [n] # popped pre rest) (insert (addr n) ex)"
  by (subst rdrain_unfold, subst (2) rdrain_unfold)
     (simp only: Previous_loop_expand[OF assms])

lemma rdrain_emit:
  assumes "children n = [] \<or> addr n \<in> ex"
  shows "rdrain ((pre @ [n]) # rest) ex
           = yield_first (own_leaf n) (rdrain (popped pre rest) (ex - {addr n}))"
proof (cases "leaf n")
  case None
  then show ?thesis
    by (subst rdrain_unfold, subst (2) rdrain_unfold)
       (simp add: Previous_loop_emit[OF assms] own_leaf_def)
next
  case (Some l)
  then show ?thesis
    by (subst rdrain_unfold) (simp add: Previous_loop_emit[OF assms] own_leaf_def)
qed

lemma rdrain_slice:
  assumes "\<And>c pre rest. c \<in> set cs \<Longrightarrow>
             rdrain ((pre @ [c]) # rest) ex = yield_first (rev (leaves c)) (rdrain (popped pre rest) ex)"
    and "cs \<noteq> []"
  shows "rdrain ((pre @ cs) # rest) ex
           = yield_first (concat (map (\<lambda>c. rev (leaves c)) (rev cs))) (rdrain (popped pre rest) ex)"
  using assms
proof (induction cs rule: rev_induct)
  case Nil
  then show ?case by simp
next
  case (snoc c ys)
  have one: "rdrain (((pre @ ys) @ [c]) # rest) ex
               = yield_first (rev (leaves c)) (rdrain (popped (pre @ ys) rest) ex)"
    by (rule snoc.prems(1)) simp
  show ?case
  proof (cases "ys = []")
    case True
    then show ?thesis using one by simp
  next
    case False
    have "rdrain ((pre @ ys) # rest) ex
            = yield_first (concat (map (\<lambda>c. rev (leaves c)) (rev ys))) (rdrain (popped pre rest) ex)"
      by (rule snoc.IH[OF snoc.prems(1) False]) simp
    moreover have "popped (pre @ ys) rest = (pre @ ys) # rest"
      using False by (simp add: popped_def)
    ultimately show ?thesis using one by (simp add: yield_first_append)
  qed
qed

lemma rev_leaves:
  "rev (leaves n) = concat (map (\<lambda>c. rev (leaves c)) (rev (children n))) @ own_leaf n"
  by (subst leaves_children)
     (simp add: own_leaf_def rev_concat rev_map comp_def split: option.splits)

lemma no_cycle_child:
  "no_cycle n \<Longrightarrow> c \<in> set (children n) \<Longrightarrow> no_cycle c \<and> addr n \<notin> set (addrs c)"
  by (subst (asm) no_cycle.simps) (auto simp: children_def)

lemma addrs_child: "c \<in> set (children n) \<Longrightarrow> set (addrs c) \<subseteq> set (addrs n)"
  by (subst (2) addrs.simps) (auto simp: children_def)

lemma addr_in_addrs: "addr n \<in> set (addrs n)"
  by (subst addrs.simps) simp

lemma child_size: "c \<in> set (children n) \<Longrightarrow> size c < size n"
  by (rule size_child) (simp add: children_def)

text \<open>A node that is not expanded is replaced on the stack by the pairs below it, last first.\<close>

lemma rdrain_subtree:
  "no_cycle n \<Longrightarrow> set (addrs n) \<inter> ex = {} \<Longrightarrow>
     rdrain ((pre @ [n]) # rest) ex = yield_first (rev (leaves n)) (rdrain (popped pre rest) ex)"
proof (induction n arbitrary: pre rest ex rule: measure_induct_rule[of size])
  case (less n)
  note nc = less.prems(1) and dj = less.prems(2)
  have nex: "addr n \<notin> ex" using dj addr_in_addrs[of n] by blast
  show ?case
  proof (cases "children n = []")
    case True
    have "rev (leaves n) = own_leaf n" by (subst rev_leaves) (simp add: True)
    moreover have "ex - {addr n} = ex" using nex by simp
    ultimately show ?thesis using rdrain_emit[of n ex pre rest] True by simp
  next
    case False
    define ex1 where "ex1 = insert (addr n) ex"
    have kids: "rdrain ((p @ [c]) # r) ex1 = yield_first (rev (leaves c)) (rdrain (popped p r) ex1)"
      if h: "c \<in> set (children n)" for c p r
    proof (rule less.IH)
      show "size c < size n" by (rule child_size[OF h])
      show "no_cycle c" using no_cycle_child[OF nc h] by simp
      show "set (addrs c) \<inter> ex1 = {}"
        using no_cycle_child[OF nc h] addrs_child[OF h] dj by (auto simp: ex1_def)
    qed
    have "rdrain ((pre @ [n]) # rest) ex = rdrain (([] @ children n) # [n] # popped pre rest) ex1"
      unfolding ex1_def using rdrain_expand[OF False nex] by simp
    also have "\<dots> = yield_first (concat (map (\<lambda>c. rev (leaves c)) (rev (children n))))
                        (rdrain (popped [] ([n] # popped pre rest)) ex1)"
      by (rule rdrain_slice[OF kids False])
    also have "rdrain (popped [] ([n] # popped pre rest)) ex1 = rdrain (([] @ [n]) # popped pre rest) ex1"
      by (simp add: popped_def)
    also have "\<dots> = yield_first (own_leaf n) (rdrain (popped [] (popped pre rest)) (ex1 - {addr n}))"
      by (rule rdrain_emit) (simp add: ex1_def)
    also have "ex1 - {addr n} = ex" using nex by (simp add: ex1_def)
    also have "popped [] (popped pre rest) = popped pre rest" by (simp add: popped_def)
    finally show ?thesis by (subst rev_leaves) (simp add: yield_first_append)
  qed
qed

section \<open>The reverse seek\<close>

lemma slices_push: "slices (push sl st) = sl # slices st"
  by (simp add: slices_def push_def)

lemma rev_concat_map: "rev (concat (map f xs)) = concat (map (\<lambda>x. rev (f x)) (rev xs))"
  by (simp add: rev_concat rev_map comp_def)

lemma rdrain_push_expanded:
  assumes "addr n \<notin> ex"
  shows "rdrain (slices (push [n] st)) (insert (addr n) ex)
           = yield_first (own_leaf n) (rdrain (slices st) ex)"
proof -
  have "rdrain (([] @ [n]) # slices st) (insert (addr n) ex)
          = yield_first (own_leaf n) (rdrain (popped [] (slices st)) (insert (addr n) ex - {addr n}))"
    by (rule rdrain_emit) simp
  moreover have "insert (addr n) ex - {addr n} = ex" using assms by simp
  ultimately show ?thesis by (simp add: slices_push popped_def)
qed

lemma rdrain_push_node:
  assumes "no_cycle n" "set (addrs n) \<inter> ex = {}"
  shows "rdrain (slices (push [n] st)) ex = yield_first (rev (leaves n)) (rdrain (slices st) ex)"
  using rdrain_subtree[OF assms, of "[]" "slices st"] by (simp add: slices_push popped_def)

lemma rdrain_push_children:
  assumes nc: "no_cycle n" and dj: "set (addrs n) \<inter> ex = {}"
    and cs: "set cs \<subseteq> set (children n)" "cs \<noteq> []"
    and ex1: "ex1 \<subseteq> insert (addr n) ex"
  shows "rdrain (slices (push cs st)) ex1
           = yield_first (concat (map (\<lambda>c. rev (leaves c)) (rev cs))) (rdrain (slices st) ex1)"
proof -
  have kids: "rdrain ((p @ [c]) # r) ex1 = yield_first (rev (leaves c)) (rdrain (popped p r) ex1)"
    if h: "c \<in> set cs" for c p r
  proof (rule rdrain_subtree)
    have h': "c \<in> set (children n)" using h cs(1) by blast
    show "no_cycle c" using no_cycle_child[OF nc h'] by simp
    show "set (addrs c) \<inter> ex1 = {}"
      using no_cycle_child[OF nc h'] addrs_child[OF h'] dj ex1 by auto
  qed
  show ?thesis
    using rdrain_slice[OF kids cs(2), of "[]" "slices st"]
    by (simp add: slices_push popped_def)
qed

lemma SeekReverseLowerBound_loop_correct:
  "node_ok acc n \<Longrightarrow> no_cycle n \<Longrightarrow> set (addrs n) \<inter> ex = {} \<Longrightarrow>
     (case SeekReverseLowerBound_loop n search (acc @ search) st ex of
        (st', ex') \<Rightarrow> rdrain (slices st') ex')
       = yield_first (rev (filter (\<lambda>kv. fst kv \<le> acc @ search) (leaves n)))
           (rdrain (slices st) ex)"
proof (induction n arbitrary: acc search st ex rule: measure_induct_rule[of size])
  case (less n)
  note ok = less.prems(1) and nc = less.prems(2) and dj = less.prems(3)
  define k where "k = acc @ search"
  define P where "P = (\<lambda>kv :: byte list \<times> 'a. fst kv \<le> k)"
  define L where "L = (\<lambda>e :: 'a Node edge_of. leaves (node e))"
  have keys: "\<exists>r. fst kv = acc @ prefix n @ r" if "kv \<in> set (leaves n)" for kv
    using keys_below[OF ok, of "fst kv" "snd kv"] that by simp
  have sorted: "sorted_edges n" by (rule node_ok_sorted[OF ok])
  have nex: "addr n \<notin> ex" using dj addr_in_addrs[of n] by blast
  have ln: "leaves n = own_leaf n @ concat (map L (edges n))"
    unfolding L_def own_leaf_def by (rule leaves_unfold)
  show ?case unfolding k_def[symmetric] P_def[symmetric]
  proof (cases "prefixCmp n search < 0")
    case True
    have "\<forall>kv \<in> set (leaves n). P kv"
    proof
      fix kv assume "kv \<in> set (leaves n)"
      then obtain r where r: "fst kv = acc @ prefix n @ r" using keys by blast
      have "prefix n @ r < search" by (rule prefixCmp_less[OF True])
      then show "P kv" unfolding P_def k_def r by (simp add: append_less_cancel less_imp_le)
    qed
    then have f: "filter P (leaves n) = leaves n" by (rule filter_all)
    have "SeekReverseLowerBound_loop n search k st ex = (push [n] st, ex)"
      using True by (subst SeekReverseLowerBound_loop.simps) simp
    then show "(case SeekReverseLowerBound_loop n search k st ex of
        (st', ex') \<Rightarrow> rdrain (slices st') ex')
       = yield_first (rev (filter P (leaves n))) (rdrain (slices st) ex)"
      using rdrain_push_node[OF nc dj, of st] f by simp
  next
    case c1: False
    show "(case SeekReverseLowerBound_loop n search k st ex of
        (st', ex') \<Rightarrow> rdrain (slices st') ex')
       = yield_first (rev (filter P (leaves n))) (rdrain (slices st) ex)"
    proof (cases "prefixCmp n search > 0")
      case True
      have "\<forall>kv \<in> set (leaves n). \<not> P kv"
      proof
        fix kv assume "kv \<in> set (leaves n)"
        then obtain r where r: "fst kv = acc @ prefix n @ r" using keys by blast
        have "search < prefix n @ r" by (rule prefixCmp_greater[OF True])
        then show "\<not> P kv" unfolding P_def k_def r by (simp add: append_less_cancel not_le)
      qed
      then have f: "filter P (leaves n) = []" by (rule filter_none)
      have "SeekReverseLowerBound_loop n search k st ex = (st, ex)"
        using True c1 by (subst SeekReverseLowerBound_loop.simps) simp
      then show ?thesis using f by simp
    next
      case c2: False
      define s' where "s' = drop (length (prefix n)) search"
      have split: "search = prefix n @ s'" unfolding s'_def by (rule prefixCmp_eq[OF c2 c1])
      have kk: "k = acc @ prefix n @ s'" using split by (simp add: k_def)
      have own_key: "fst kv = acc @ prefix n" if h: "kv \<in> set (own_leaf n)" for kv
        using h node_ok_leaf[OF ok] by (auto simp: own_leaf_def split: option.splits)
      have own_P: "filter P (own_leaf n) = own_leaf n"
      proof (rule filter_all, rule ballI)
        fix kv assume "kv \<in> set (own_leaf n)"
        then have "fst kv = acc @ prefix n" by (rule own_key)
        then show "P kv" unfolding P_def kk using le_append[of "acc @ prefix n" s'] by simp
      qed
      have above: "filter P (concat (map L (edges n))) = []" if h: "s' = []"
      proof (rule filter_none, rule ballI)
        fix kv assume "kv \<in> set (concat (map L (edges n)))"
        then obtain e where e: "e \<in> set (edges n)" "kv \<in> set (leaves (node e))"
          by (auto simp: L_def)
        obtain r where "fst kv = acc @ prefix n @ label e # r"
          using keys_below_edge[OF ok e(1), of "fst kv" "snd kv"] e(2) by auto
        then have "k < fst kv"
          unfolding kk h using less_append_Cons[of "acc @ prefix n" "label e" r] by simp
        then show "\<not> P kv" by (simp add: P_def not_le)
      qed
      show ?thesis
      proof (cases "isLeaf n \<and> key (the (leaf n)) = k")
        case True
        then obtain l where l: "leaf n = Some l" "key l = k" by (auto simp: isLeaf_def)
        have "k = acc @ prefix n" using node_ok_leaf[OF ok l(1)] l(2) by simp
        then have "s' = []" using kk by simp
        then have f: "filter P (leaves n) = own_leaf n"
          unfolding ln by (simp only: filter_append own_P above append_Nil2)
        have r: "rev (own_leaf n) = own_leaf n" by (simp add: own_leaf_def split: option.splits)
        have "SeekReverseLowerBound_loop n search k st ex = (push [n] st, insert (addr n) ex)"
          using True c1 c2 by (subst SeekReverseLowerBound_loop.simps) simp
        then show ?thesis using rdrain_push_expanded[OF nex, of st] f r by simp
      next
        case c3: False
        show ?thesis
        proof (cases "isLeaf n \<and> length (children n) = 0")
          case True
          then have "edges n = []" by (simp add: children_def)
          then have f: "filter P (leaves n) = own_leaf n"
            unfolding ln using own_P by simp
          have r: "rev (own_leaf n) = own_leaf n" by (simp add: own_leaf_def split: option.splits)
          have "SeekReverseLowerBound_loop n search k st ex = (push [n] st, insert (addr n) ex)"
            by (subst SeekReverseLowerBound_loop.simps, subst if_not_P[OF c1],
                subst if_not_P[OF c2], subst if_not_P[OF c3], subst if_P[OF True]) (rule refl)
          then show ?thesis using rdrain_push_expanded[OF nex, of st] f r by simp
        next
          case c4: False
          define st1 where "st1 = (if isLeaf n then push [n] st else st)"
          define ex1 where "ex1 = (if isLeaf n then insert (addr n) ex else ex)"
          have step: "SeekReverseLowerBound_loop n search k st ex =
             (if length s' = 0 then (st1, ex1)
              else
                (case getLowerBoundEdge n (s' ! 0) of
                   (idx, lbNode) \<Rightarrow>
                     (let idx' = (if idx = - 1 then int (length (children n)) else idx);
                          st2 = (if idx' > 0 then push (take (nat idx') (children n)) st1 else st1)
                      in case lbNode of
                           None \<Rightarrow> (st2, ex1)
                         | Some n' \<Rightarrow> SeekReverseLowerBound_loop n' s' k st2 ex1)))"
            by (subst SeekReverseLowerBound_loop.simps, subst if_not_P[OF c1],
                subst if_not_P[OF c2], subst if_not_P[OF c3], subst if_not_P[OF c4])
               (simp only: Let_def s'_def st1_def ex1_def)
          have ex1_sub: "ex1 \<subseteq> insert (addr n) ex" by (auto simp: ex1_def)
          have d1: "rdrain (slices st1) ex1 = yield_first (own_leaf n) (rdrain (slices st) ex)"
          proof (cases "isLeaf n")
            case True
            then show ?thesis using rdrain_push_expanded[OF nex, of st] by (simp add: st1_def ex1_def)
          next
            case False
            then have "own_leaf n = []" by (simp add: own_leaf_def isLeaf_def)
            then show ?thesis using False by (simp add: st1_def ex1_def)
          qed
          show ?thesis
          proof (cases "s' = []")
            case True
            have "\<not> isLeaf n"
            proof
              assume "isLeaf n"
              then obtain l where l: "leaf n = Some l" by (auto simp: isLeaf_def)
              have "key l = k" using node_ok_leaf[OF ok l] kk True by simp
              then show False using c3 l by (simp add: isLeaf_def)
            qed
            then have o: "own_leaf n = []" "st1 = st" "ex1 = ex"
              by (simp_all add: own_leaf_def isLeaf_def st1_def ex1_def)
            have f: "filter P (leaves n) = []"
              unfolding ln by (simp only: filter_append above[OF True] o(1) filter.simps append_Nil)
            have "SeekReverseLowerBound_loop n search k st ex = (st, ex)"
              unfolding step using True o by simp
            then show ?thesis using f by simp
          next
            case False
            then obtain b s2 where bs: "s' = b # s2" by (cases s') auto
            have kb: "k = acc @ prefix n @ b # s2" using kk bs by simp
            define idx where "idx = edge_search n b"
            have lo: "filter P (L e) = L e" if h1: "e \<in> set (edges n)" and h2: "label e < b" for e
            proof (rule filter_all, rule ballI)
              fix kv assume "kv \<in> set (L e)"
              then have "fst kv < k"
                unfolding kb L_def by (intro keys_below_edge_less[OF ok h1 h2])
              then show "P kv" by (simp add: P_def less_imp_le)
            qed
            have hi: "filter P (L e) = []" if h1: "e \<in> set (edges n)" and h2: "b < label e" for e
            proof (rule filter_none, rule ballI)
              fix kv assume "kv \<in> set (L e)"
              then have "k < fst kv"
                unfolding kb L_def by (intro keys_below_edge_greater[OF ok h1 h2])
              then show "\<not> P kv" by (simp add: P_def not_le)
            qed
            have tk: "filter P (concat (map L (take idx (edges n)))) = concat (map L (take idx (edges n)))"
            proof -
              have "\<forall>e \<in> set (take idx (edges n)). filter P (L e) = L e"
                unfolding idx_def edge_search_take[OF sorted] using lo by simp
              then show ?thesis unfolding filter_concat_map
                by (intro arg_cong[where f=concat] map_cong refl) simp
            qed
            have lnf: "filter P (leaves n) = own_leaf n @ concat (map L (take idx (edges n)))
                         @ filter P (concat (map L (drop idx (edges n))))"
            proof -
              have "leaves n = own_leaf n @ concat (map L (take idx (edges n)))
                      @ concat (map L (drop idx (edges n)))"
                unfolding ln by (metis append_take_drop_id concat_append map_append)
              then show ?thesis by (simp only: filter_append own_P tk)
            qed
            have lows: "rdrain (slices (if 0 < j then push (take j (children n)) st1 else st1)) ex1
                  = yield_first (concat (map (\<lambda>e. rev (L e)) (rev (take j (edges n)))))
                      (rdrain (slices st1) ex1)"
              if h: "0 < j \<Longrightarrow> edges n \<noteq> []" for j
            proof (cases "0 < j")
              case True
              have ne: "take j (children n) \<noteq> []" using True h by (simp add: children_def)
              have "rdrain (slices (push (take j (children n)) st1)) ex1
                      = yield_first (concat (map (\<lambda>c. rev (leaves c)) (rev (take j (children n)))))
                          (rdrain (slices st1) ex1)"
                by (rule rdrain_push_children[OF nc dj _ ne ex1_sub]) (rule set_take_subset)
              moreover have "concat (map (\<lambda>c. rev (leaves c)) (rev (take j (children n))))
                     = concat (map (\<lambda>e. rev (L e)) (rev (take j (edges n))))"
                by (simp add: children_def take_map rev_map comp_def L_def)
              ultimately show ?thesis using True by simp
            next
              case False
              then show ?thesis by simp
            qed
            have b0: "s' ! 0 = b" "s' \<noteq> []" using bs by simp_all
            show ?thesis
            proof (cases "idx < length (edges n)")
              case False
              then have d: "drop idx (edges n) = []" "take idx (edges n) = edges n" by simp_all
              have f: "rev (filter P (leaves n))
                         = concat (map (\<lambda>e. rev (L e)) (rev (edges n))) @ rev (own_leaf n)"
                unfolding lnf d by (simp add: rev_concat_map)
              have r: "rev (own_leaf n) = own_leaf n" by (simp add: own_leaf_def split: option.splits)
              have g: "getLowerBoundEdge n b = (- 1, None)"
                unfolding getLowerBoundEdge_eq using False by (simp add: idx_def)
              have "SeekReverseLowerBound_loop n search k st ex
                      = (if 0 < length (edges n) then push (take (length (edges n)) (children n)) st1 else st1, ex1)"
                unfolding step using b0 g by (simp add: children_def)
              moreover have "rdrain (slices (if 0 < length (edges n)
                                 then push (take (length (edges n)) (children n)) st1 else st1)) ex1
                  = yield_first (concat (map (\<lambda>e. rev (L e)) (rev (take (length (edges n)) (edges n)))))
                      (rdrain (slices st1) ex1)"
                by (rule lows) auto
              ultimately show ?thesis unfolding f r d1 by (simp add: yield_first_append)
            next
              case True
              define e where "e = edges n ! idx"
              define c where "c = node e"
              define st2 where "st2 = (if 0 < idx then push (take idx (children n)) st1 else st1)"
              have emem: "e \<in> set (edges n)" using True by (simp add: e_def)
              have cmem: "c \<in> set (children n)" using emem by (simp add: c_def children_def)
              have dr: "drop idx (edges n) = e # drop (idx + 1) (edges n)"
                using True by (simp add: e_def Cons_nth_drop_Suc)
              have ble: "b \<le> label e"
                using edge_search_spec(3)[OF sorted, of b idx] True by (simp add: idx_def e_def)
              have rest0: "filter P (concat (map L (drop (idx + 1) (edges n)))) = []"
              proof -
                have "\<forall>x \<in> set (drop (idx + 1) (edges n)). filter P (L x) = []"
                proof
                  fix x assume x: "x \<in> set (drop (idx + 1) (edges n))"
                  then obtain j where j: "j < length (edges n) - (idx + 1)" "x = edges n ! (idx + 1 + j)"
                    by (auto simp: in_set_conv_nth)
                  have "label e < label x"
                    unfolding e_def j(2) by (rule sorted_edges_nth_less[OF sorted]) (use j in simp_all)
                  then have "b < label x" using ble by simp
                  moreover have "x \<in> set (edges n)" using x by (rule in_set_dropD)
                  ultimately show "filter P (L x) = []" by (intro hi)
                qed
                then show ?thesis unfolding filter_concat_map by (rule concat_map_Nil)
              qed
              have "filter P (concat (map L (e # drop (idx + 1) (edges n))))
                      = filter P (L e) @ filter P (concat (map L (drop (idx + 1) (edges n))))"
                by (simp only: list.map concat.simps filter_append)
              also have "\<dots> = filter P (leaves c)"
                by (simp only: rest0 append_Nil2) (simp add: L_def c_def)
              finally have f0: "filter P (leaves n)
                      = own_leaf n @ concat (map L (take idx (edges n))) @ filter P (leaves c)"
                unfolding lnf dr by simp
              have r: "rev (own_leaf n) = own_leaf n" by (simp add: own_leaf_def split: option.splits)
              have f: "rev (filter P (leaves n)) = rev (filter P (leaves c))
                         @ concat (map (\<lambda>e. rev (L e)) (rev (take idx (edges n)))) @ own_leaf n"
                unfolding f0 by (simp add: rev_concat_map r)
              have g: "getLowerBoundEdge n b = (int idx, Some c)"
                unfolding getLowerBoundEdge_eq using True by (simp add: idx_def e_def c_def)
              have rec: "SeekReverseLowerBound_loop n search k st ex
                          = SeekReverseLowerBound_loop c s' k st2 ex1"
                unfolding step using b0 g by (simp add: st2_def)
              have d2: "rdrain (slices st2) ex1
                  = yield_first (concat (map (\<lambda>e. rev (L e)) (rev (take idx (edges n)))))
                      (rdrain (slices st1) ex1)"
                unfolding st2_def by (rule lows) (use True in auto)
              have cok: "node_ok (acc @ prefix n) c"
                using node_ok_child[OF ok emem] by (simp add: c_def)
              have sz: "size c < size n" by (rule child_size[OF cmem])
              have cnc: "no_cycle c" using no_cycle_child[OF nc cmem] by simp
              have cdj: "set (addrs c) \<inter> ex1 = {}"
                using no_cycle_child[OF nc cmem] addrs_child[OF cmem] dj ex1_sub by auto
              have k2: "(acc @ prefix n) @ s' = k" using kk by simp
              have IH: "(case SeekReverseLowerBound_loop c s' k st2 ex1 of
                           (st', ex') \<Rightarrow> rdrain (slices st') ex')
                        = yield_first (rev (filter P (leaves c))) (rdrain (slices st2) ex1)"
                using less.IH[OF sz cok cnc cdj, of s' st2] unfolding k2 P_def by simp
              show ?thesis unfolding rec IH f d2 d1 by (simp add: yield_first_append)
            qed
          qed
        qed
      qed
    qed
  qed
qed

end
